theory Spec2Isabelle
  imports Complex_Main "HOL-Library.Char_ord" "HOL-Library.List_Lexorder"
begin

section \<open>Text: characters and the string methods the code uses\<close>

text \<open>
  Python strings are modelled as \<^typ>\<open>string\<close> holding ASCII text. On ASCII text
  \<^verbatim>\<open>unicodedata.normalize("NFKC", t)\<close> is the identity, \<^verbatim>\<open>casefold\<close> is
  \<^verbatim>\<open>lower\<close>, and the zero-width characters, curly quotes, no-break space and the
  en and em dashes that the code removes or replaces cannot occur, so those steps change
  nothing. The character classes below are the ASCII part of the classes of Python's
  \<^verbatim>\<open>re\<close> and \<^verbatim>\<open>str\<close>: white space is what \<^verbatim>\<open>str.isspace\<close> accepts
  (tab, line feed, vertical tab, form feed, carriage return, the four separators
  0x1C to 0x1F and the space).
\<close>

text \<open>
  \<^verbatim>\<open>s.isascii()\<close>. The definitions of this theory say what the code does on ASCII
  text only, and every statement about an arbitrary text assumes that it is ASCII.
\<close>

definition isascii :: "string \<Rightarrow> bool" where
  "isascii s \<longleftrightarrow> (\<forall>c \<in> set s. (of_char c :: nat) < 128)"

definition is_space :: "char \<Rightarrow> bool" where
  "is_space c \<longleftrightarrow> c \<in> set [CHR 0x09, CHR 0x0A, CHR 0x0B, CHR 0x0C, CHR 0x0D,
                             CHR 0x1C, CHR 0x1D, CHR 0x1E, CHR 0x1F, CHR '' '']"

definition is_upper :: "char \<Rightarrow> bool" where
  "is_upper c \<longleftrightarrow> c \<in> set ''ABCDEFGHIJKLMNOPQRSTUVWXYZ''"

definition is_lower :: "char \<Rightarrow> bool" where
  "is_lower c \<longleftrightarrow> c \<in> set ''abcdefghijklmnopqrstuvwxyz''"

definition is_alpha :: "char \<Rightarrow> bool" where
  "is_alpha c \<longleftrightarrow> is_upper c \<or> is_lower c"

definition is_digit :: "char \<Rightarrow> bool" where
  "is_digit c \<longleftrightarrow> c \<in> set ''0123456789''"

definition is_word :: "char \<Rightarrow> bool" where
  "is_word c \<longleftrightarrow> is_alpha c \<or> is_digit c \<or> c = CHR ''_''"

definition lower_char :: "char \<Rightarrow> char" where
  "lower_char c =
     (case map_of (zip ''ABCDEFGHIJKLMNOPQRSTUVWXYZ'' ''abcdefghijklmnopqrstuvwxyz'') c of
        Some d \<Rightarrow> d | None \<Rightarrow> c)"

definition upper_char :: "char \<Rightarrow> char" where
  "upper_char c =
     (case map_of (zip ''abcdefghijklmnopqrstuvwxyz'' ''ABCDEFGHIJKLMNOPQRSTUVWXYZ'') c of
        Some d \<Rightarrow> d | None \<Rightarrow> c)"

definition lower :: "string \<Rightarrow> string" where
  "lower s = map lower_char s"

definition upper :: "string \<Rightarrow> string" where
  "upper s = map upper_char s"

text \<open>\<^verbatim>\<open>s.strip(chars)\<close>, \<^verbatim>\<open>s.rstrip(chars)\<close>, and \<^verbatim>\<open>s.strip()\<close> for white space.\<close>

definition lstrip_chars :: "(char \<Rightarrow> bool) \<Rightarrow> string \<Rightarrow> string" where
  "lstrip_chars P s = dropWhile P s"

definition rstrip_chars :: "(char \<Rightarrow> bool) \<Rightarrow> string \<Rightarrow> string" where
  "rstrip_chars P s = rev (dropWhile P (rev s))"

definition strip_chars :: "(char \<Rightarrow> bool) \<Rightarrow> string \<Rightarrow> string" where
  "strip_chars P s = rstrip_chars P (lstrip_chars P s)"

definition strip :: "string \<Rightarrow> string" where
  "strip s = strip_chars is_space s"

text \<open>\<^verbatim>\<open>sep.join(parts)\<close>.\<close>

fun join :: "string \<Rightarrow> string list \<Rightarrow> string" where
  "join sep [] = []"
| "join sep [x] = x"
| "join sep (x # y # ys) = x @ sep @ join sep (y # ys)"

text \<open>\<^verbatim>\<open>str(n)\<close> for a non-negative integer.\<close>

definition digit_char :: "nat \<Rightarrow> char" where
  "digit_char d = ''0123456789'' ! d"

fun str_nat_fuel :: "nat \<Rightarrow> nat \<Rightarrow> string" where
  "str_nat_fuel 0 n = [digit_char (n mod 10)]"
| "str_nat_fuel (Suc k) n =
     (if n < 10 then [digit_char n] else str_nat_fuel k (n div 10) @ [digit_char (n mod 10)])"

definition str_nat :: "nat \<Rightarrow> string" where
  "str_nat n = str_nat_fuel n n"

section \<open>Regular expressions: the part of Python's re module the code uses\<close>

text \<open>
  A pattern is a term of \<open>regex\<close>; \<open>rmatch\<close> returns every way the pattern can match
  at one position, in the order in which Python's backtracking matcher tries them, so
  the head of the list is the match \<^verbatim>\<open>re\<close> reports. A matcher state is the text before
  the position (the nearest character first), the text from the position on, and the
  groups captured so far (the latest binding first).

  \<open>Rep n greedy r\<close> is \<^verbatim>\<open>r{n,}\<close> (greedy) or \<^verbatim>\<open>r{n,}?\<close> (lazy): \<^verbatim>\<open>r*\<close> is
  \<open>Rep 0 True r\<close>, \<^verbatim>\<open>r+\<close> is \<open>Rep 1 True r\<close>, \<^verbatim>\<open>r*?\<close> is \<open>Rep 0 False r\<close>. An
  iteration has to consume a character; every repeated pattern of the code does.
  \<^verbatim>\<open>r?\<close> is \<open>Alt r Eps\<close>. \<open>WordB\<close> is \<^verbatim>\<open>\b\<close>, \<open>Eos\<close> is \<^verbatim>\<open>$\<close> (the end of the
  text, or before a line feed that ends it), \<open>NotBehind P\<close> and \<open>NotAhead P\<close> are the
  look-arounds \<^verbatim>\<open>(?<!P)\<close> and \<^verbatim>\<open>(?!P)\<close> for a character class \<open>P\<close>, \<open>Back n\<close> is the
  back-reference \<^verbatim>\<open>\n\<close>.
\<close>

datatype regex =
    Eps
  | Cls "char \<Rightarrow> bool"
  | Cat regex regex
  | Alt regex regex
  | Rep nat bool regex
  | Grp nat regex
  | Back nat
  | WordB
  | Eos
  | NotBehind "char \<Rightarrow> bool"
  | NotAhead "char \<Rightarrow> bool"

type_synonym caps = "(nat \<times> string) list"
type_synonym mstate = "string \<times> string \<times> caps"

abbreviation rest_len :: "mstate \<Rightarrow> nat" where
  "rest_len s \<equiv> length (fst (snd s))"

fun reps :: "nat \<Rightarrow> (mstate \<Rightarrow> mstate list) \<Rightarrow> bool \<Rightarrow> nat \<Rightarrow> mstate \<Rightarrow> mstate list" where
  "reps 0 f greedy n s = (if n = 0 then [s] else [])"
| "reps (Suc fuel) f greedy n s =
     (let more = concat (map (reps fuel f greedy (n - 1))
                          (filter (\<lambda>s'. rest_len s' < rest_len s) (f s)));
          stop = (if n = 0 then [s] else [])
      in if greedy then more @ stop else stop @ more)"

definition at_word_boundary :: "string \<Rightarrow> string \<Rightarrow> bool" where
  "at_word_boundary bef rest \<longleftrightarrow>
     (case bef of [] \<Rightarrow> False | b # _ \<Rightarrow> is_word b) \<noteq>
     (case rest of [] \<Rightarrow> False | c # _ \<Rightarrow> is_word c)"

primrec rmatch :: "regex \<Rightarrow> mstate \<Rightarrow> mstate list" where
  "rmatch Eps s = [s]"
| "rmatch (Cls P) s =
     (case s of (bef, rest, cs) \<Rightarrow>
        (case rest of [] \<Rightarrow> [] | c # rest' \<Rightarrow> if P c then [(c # bef, rest', cs)] else []))"
| "rmatch (Cat a b) s = concat (map (rmatch b) (rmatch a s))"
| "rmatch (Alt a b) s = rmatch a s @ rmatch b s"
| "rmatch (Rep n greedy r) s = reps (rest_len s) (rmatch r) greedy n s"
| "rmatch (Grp g r) s =
     map (\<lambda>s'. case s' of (bef', rest', cs') \<Rightarrow>
                 (bef', rest', (g, take (rest_len s - length rest') (fst (snd s))) # cs'))
         (rmatch r s)"
| "rmatch (Back g) s =
     (case s of (bef, rest, cs) \<Rightarrow>
        (case map_of cs g of
           None \<Rightarrow> []
         | Some w \<Rightarrow> if take (length w) rest = w
                     then [(rev w @ bef, drop (length w) rest, cs)] else []))"
| "rmatch WordB s =
     (case s of (bef, rest, cs) \<Rightarrow> if at_word_boundary bef rest then [s] else [])"
| "rmatch Eos s =
     (case s of (bef, rest, cs) \<Rightarrow> if rest = [] \<or> rest = [CHR 0x0A] then [s] else [])"
| "rmatch (NotBehind P) s =
     (case s of (bef, rest, cs) \<Rightarrow>
        (case bef of [] \<Rightarrow> [s] | b # _ \<Rightarrow> if P b then [] else [s]))"
| "rmatch (NotAhead P) s =
     (case s of (bef, rest, cs) \<Rightarrow>
        (case rest of [] \<Rightarrow> [s] | c # _ \<Rightarrow> if P c then [] else [s]))"

text \<open>Pattern shorthands: a literal, a literal under \<^verbatim>\<open>re.IGNORECASE\<close>, and the
  greedy quantifiers.\<close>

definition chr :: "char \<Rightarrow> regex" where
  "chr c = Cls (\<lambda>x. x = c)"

definition ichr :: "char \<Rightarrow> regex" where
  "ichr c = Cls (\<lambda>x. lower_char x = lower_char c)"

fun lit :: "string \<Rightarrow> regex" where
  "lit [] = Eps"
| "lit [c] = chr c"
| "lit (c # cs) = Cat (chr c) (lit cs)"

fun ilit :: "string \<Rightarrow> regex" where
  "ilit [] = Eps"
| "ilit [c] = ichr c"
| "ilit (c # cs) = Cat (ichr c) (ilit cs)"

definition Star :: "regex \<Rightarrow> regex" where
  "Star r = Rep 0 True r"

definition Plus :: "regex \<Rightarrow> regex" where
  "Plus r = Rep 1 True r"

definition Opt :: "regex \<Rightarrow> regex" where
  "Opt r = Alt r Eps"

fun cats :: "regex list \<Rightarrow> regex" where
  "cats [] = Eps"
| "cats [r] = r"
| "cats (r # rs) = Cat r (cats rs)"

text \<open>
  The match at a position: the first way \<open>rmatch\<close> finds, with no group captured yet.
  \<open>group cs g\<close> is \<^verbatim>\<open>m.group(g)\<close>, \<open>None\<close> for a group that took no part.
\<close>

definition match_here :: "regex \<Rightarrow> string \<Rightarrow> string \<Rightarrow> mstate option" where
  "match_here re bef rest = (case rmatch re (bef, rest, []) of [] \<Rightarrow> None | s # _ \<Rightarrow> Some s)"

definition group :: "caps \<Rightarrow> nat \<Rightarrow> string option" where
  "group cs g = map_of cs g"

definition fullmatch :: "regex \<Rightarrow> string \<Rightarrow> bool" where
  "fullmatch re s \<longleftrightarrow> (\<exists>m \<in> set (rmatch re ([], s, [])). fst (snd m) = [])"

text \<open>
  \<^verbatim>\<open>re.sub(pattern, repl, text)\<close>: scan from the left; at a match, emit the replacement
  (a function of the matched text and the groups) and go on behind the match; elsewhere
  copy the character. No pattern of the code matches the empty string; on an empty match
  the replacement is emitted and one character is copied.
\<close>

fun re_sub_from :: "regex \<Rightarrow> (string \<Rightarrow> caps \<Rightarrow> string) \<Rightarrow> string \<Rightarrow> string \<Rightarrow> string" where
  "re_sub_from re repl bef rest =
     (case match_here re bef rest of
        None \<Rightarrow> (case rest of [] \<Rightarrow> [] | c # cs \<Rightarrow> c # re_sub_from re repl (c # bef) cs)
      | Some m \<Rightarrow>
          repl (take (length rest - rest_len m) rest) (snd (snd m)) @
          (if rest_len m < length rest
           then re_sub_from re repl (fst m) (fst (snd m))
           else (case rest of [] \<Rightarrow> [] | c # cs \<Rightarrow> c # re_sub_from re repl (c # bef) cs)))"

declare re_sub_from.simps [simp del]

definition re_sub :: "regex \<Rightarrow> (string \<Rightarrow> caps \<Rightarrow> string) \<Rightarrow> string \<Rightarrow> string" where
  "re_sub re repl s = re_sub_from re repl [] s"

text \<open>
  \<^verbatim>\<open>re.split(pattern, text)\<close>: the pieces between the matches, the empty pieces at the
  ends included. \<open>cur\<close> is the piece being read, reversed.
\<close>

fun re_split_from :: "regex \<Rightarrow> string \<Rightarrow> string \<Rightarrow> string \<Rightarrow> string list" where
  "re_split_from re bef rest cur =
     (case match_here re bef rest of
        None \<Rightarrow> (case rest of [] \<Rightarrow> [rev cur]
                  | c # cs \<Rightarrow> re_split_from re (c # bef) cs (c # cur))
      | Some m \<Rightarrow>
          (if rest_len m < length rest
           then rev cur # re_split_from re (fst m) (fst (snd m)) []
           else (case rest of [] \<Rightarrow> [rev cur]
                 | c # cs \<Rightarrow> re_split_from re (c # bef) cs (c # cur))))"

declare re_split_from.simps [simp del]

definition re_split :: "regex \<Rightarrow> string \<Rightarrow> string list" where
  "re_split re s = re_split_from re [] s []"

text \<open>
  \<^verbatim>\<open>re.finditer(pattern, text)\<close>: the matches from the left, each as its start, its end
  and the matched text.
\<close>

fun finditer_from :: "regex \<Rightarrow> string \<Rightarrow> string \<Rightarrow> (nat \<times> nat \<times> string) list" where
  "finditer_from re bef rest =
     (case match_here re bef rest of
        None \<Rightarrow> (case rest of [] \<Rightarrow> [] | c # cs \<Rightarrow> finditer_from re (c # bef) cs)
      | Some m \<Rightarrow>
          (length bef, length bef + (length rest - rest_len m),
           take (length rest - rest_len m) rest) #
          (if rest_len m < length rest
           then finditer_from re (fst m) (fst (snd m))
           else (case rest of [] \<Rightarrow> [] | c # cs \<Rightarrow> finditer_from re (c # bef) cs)))"

declare finditer_from.simps [simp del]

definition finditer :: "regex \<Rightarrow> string \<Rightarrow> (nat \<times> nat \<times> string) list" where
  "finditer re s = finditer_from re [] s"

section \<open>legal\_normalizer.py\<close>

definition STOPWORDS :: "string list" where
  "STOPWORDS = [''v'', ''v.'', ''vs'', ''vs.'', ''versus'', ''petitioner'', ''respondent'',
                ''appellant'', ''judgment'', ''order'', ''the'']"

definition HONORIFICS :: "string list" where
  "HONORIFICS = [''sri'', ''smt'', ''shri'', ''dr'', ''justice'', [CHR ''h'', CHR ''o'', CHR ''n'', CHR 0x27, CHR ''b'', CHR ''l'', CHR ''e''], ''honble'']"

definition ABBREV_MAP :: "(string \<times> string) list" where
  "ABBREV_MAP = [(''sc'', ''supreme court''), (''hc'', ''high court'')]"

definition ROMAN_MAP :: "(string \<times> nat) list" where
  "ROMAN_MAP = [(''M'', 1000), (''CM'', 900), (''D'', 500), (''CD'', 400),
                (''C'', 100), (''XC'', 90), (''L'', 50), (''XL'', 40),
                (''X'', 10), (''IX'', 9), (''V'', 5), (''IV'', 4), (''I'', 1)]"

text \<open>The character set of \<^verbatim>\<open>tok.strip(".,:;()[]{}\"")\<close>.\<close>

definition token_punct :: "char \<Rightarrow> bool" where
  "token_punct c \<longleftrightarrow> c \<in> set [CHR ''.'', CHR '','', CHR '':'', CHR '';'', CHR ''('', CHR '')'',
                                CHR ''['', CHR '']'', CHR ''{'', CHR ''}'', CHR 0x22]"

text \<open>The pattern \<^verbatim>\<open>\s+\<close>.\<close>

definition WS_PAT :: regex where
  "WS_PAT = Plus (Cls is_space)"

definition normalize_unicode :: "string \<Rightarrow> string" where
  "normalize_unicode text =
     (if text = [] then []
      else strip (re_sub WS_PAT (\<lambda>_ _. '' '') text))"

definition strip_stopwords :: "string \<Rightarrow> string" where
  "strip_stopwords text =
     (if text = [] then []
      else strip (join '' ''
             (filter (\<lambda>tok. strip_chars token_punct (lower tok) \<notin> set STOPWORDS)
                     (re_split WS_PAT text))))"

text \<open>\<^verbatim>\<open>\b(?:[A-Za-z]\.\s*){2,}\s*\<close> and \<^verbatim>\<open>\b([A-Za-z])\.\<close>.\<close>

definition INITIALS_PAT :: regex where
  "INITIALS_PAT =
     cats [WordB,
           Rep 2 True (cats [Cls is_alpha, chr CHR ''.'', Star (Cls is_space)]),
           Star (Cls is_space)]"

definition STRAY_DOT_PAT :: regex where
  "STRAY_DOT_PAT = cats [WordB, Grp 1 (Cls is_alpha), chr CHR ''.'']"

definition group_or_empty :: "caps \<Rightarrow> nat \<Rightarrow> string" where
  "group_or_empty cs g = (case group cs g of None \<Rightarrow> [] | Some w \<Rightarrow> w)"

definition collapse_initials :: "string \<Rightarrow> string" where
  "collapse_initials text =
     (if text = [] then []
      else
        let repl = (\<lambda>s _. lower (filter is_alpha s) @
                           (if s \<noteq> [] \<and> last s = CHR '' '' then '' '' else []));
            t = re_sub INITIALS_PAT repl text
        in re_sub STRAY_DOT_PAT (\<lambda>_ cs. group_or_empty cs 1) t)"

text \<open>\<^verbatim>\<open>\b(?:SC|HC)\b\.?\<close> under \<^verbatim>\<open>re.IGNORECASE\<close>.\<close>

definition ABBREV_PAT :: regex where
  "ABBREV_PAT = cats [WordB, Alt (ilit ''SC'') (ilit ''HC''), WordB, Opt (chr CHR ''.'')]"

definition expand_abbreviations :: "string \<Rightarrow> string" where
  "expand_abbreviations text =
     re_sub ABBREV_PAT
       (\<lambda>s _. case map_of ABBREV_MAP (rstrip_chars (\<lambda>c. c = CHR ''.'') (lower s)) of
                 Some e \<Rightarrow> e | None \<Rightarrow> s)
       text"

text \<open>
  \<^verbatim>\<open>roman_to_int\<close>: the loop over the upper-cased numeral takes a pair of symbols when
  it is in the table and one symbol otherwise (0 for a symbol not in the table).
\<close>

fun roman_loop :: "string \<Rightarrow> nat" where
  "roman_loop [] = 0"
| "roman_loop [c] = (case map_of ROMAN_MAP [c] of Some v \<Rightarrow> v | None \<Rightarrow> 0)"
| "roman_loop (c # d # cs) =
     (case map_of ROMAN_MAP [c, d] of
        Some v \<Rightarrow> v + roman_loop cs
      | None \<Rightarrow> (case map_of ROMAN_MAP [c] of Some v \<Rightarrow> v | None \<Rightarrow> 0) + roman_loop (d # cs))"

definition roman_to_int :: "string \<Rightarrow> nat" where
  "roman_to_int roman = roman_loop (upper roman)"

text \<open>
  \<^verbatim>\<open>SECTION_PAT\<close>:
  \<^verbatim>\<open>\b(?:s\.?\s+|sec(?:tion)?\s+)([ivxlcdm]+|\d+)(?:-?([A-Za-z]\w*))?\b\<close> under
  \<^verbatim>\<open>re.IGNORECASE\<close>.
\<close>

definition is_roman :: "char \<Rightarrow> bool" where
  "is_roman c \<longleftrightarrow> lower_char c \<in> set ''ivxlcdm''"

definition SECTION_PAT :: regex where
  "SECTION_PAT =
     cats [WordB,
           Alt (cats [ilit ''s'', Opt (chr CHR ''.''), Plus (Cls is_space)])
               (cats [ilit ''sec'', Opt (ilit ''tion''), Plus (Cls is_space)]),
           Grp 1 (Alt (Plus (Cls is_roman)) (Plus (Cls is_digit))),
           Opt (cats [Opt (chr CHR ''-''), Grp 2 (cats [Cls is_alpha, Star (Cls is_word)])]),
           WordB]"

definition normalize_sections :: "string \<Rightarrow> string" where
  "normalize_sections text =
     re_sub SECTION_PAT
       (\<lambda>_ cs. let num = group_or_empty cs 1;
                    tail = group_or_empty cs 2;
                    num' = (if fullmatch (Plus (Cls is_roman)) num
                            then str_nat (roman_to_int num) else num)
                in ''section '' @ num' @ lower tail)
       text"

text \<open>
  \<^verbatim>\<open>phonetic_key\<close>. The patterns are \<^verbatim>\<open>[^A-Za-z]\<close>, \<^verbatim>\<open>[AEIOUYHW]\<close> and
  \<^verbatim>\<open>(\d)\1+\<close>; \<open>trans\<close> is the table of \<^verbatim>\<open>str.maketrans\<close>.
\<close>

definition trans :: "(char \<times> char) list" where
  "trans = [(CHR ''B'', CHR ''1''), (CHR ''F'', CHR ''1''), (CHR ''P'', CHR ''1''), (CHR ''V'', CHR ''1''),
            (CHR ''C'', CHR ''2''), (CHR ''G'', CHR ''2''), (CHR ''J'', CHR ''2''), (CHR ''K'', CHR ''2''),
            (CHR ''Q'', CHR ''2''), (CHR ''S'', CHR ''2''), (CHR ''X'', CHR ''2''), (CHR ''Z'', CHR ''2''),
            (CHR ''D'', CHR ''3''), (CHR ''T'', CHR ''3''),
            (CHR ''L'', CHR ''4''),
            (CHR ''M'', CHR ''5''), (CHR ''N'', CHR ''5''),
            (CHR ''R'', CHR ''6'')]"

definition translate :: "(char \<times> char) list \<Rightarrow> string \<Rightarrow> string" where
  "translate tab s = map (\<lambda>c. case map_of tab c of Some d \<Rightarrow> d | None \<Rightarrow> c) s"

definition phonetic_key :: "string \<Rightarrow> string" where
  "phonetic_key text =
     (let t = upper (re_sub (Cls (\<lambda>c. \<not> is_alpha c)) (\<lambda>_ _. []) text)
      in case t of
           [] \<Rightarrow> []
         | first # tail \<Rightarrow>
             let digits = translate trans tail;
                 digits = re_sub (Cls (\<lambda>c. c \<in> set ''AEIOUYHW'')) (\<lambda>_ _. []) digits;
                 digits = re_sub (cats [Grp 1 (Cls is_digit), Plus (Back 1)])
                                 (\<lambda>_ cs. group_or_empty cs 1) digits
             in take 4 (first # digits @ ''000''))"

text \<open>
  \<^verbatim>\<open>normalize_legal_entity\<close>. The footnote pattern is
  \<^verbatim>\<open>(\b[A-Za-z][A-Za-z\s]*?)(?:\[\d+\]|(\d+))\b\<close>, the judge marker
  \<^verbatim>\<open>\bJ\.\]?\s*$\<close>, and of the dashes of its last pattern ASCII text has the
  hyphen only.
\<close>

definition FOOTNOTE_PAT :: regex where
  "FOOTNOTE_PAT =
     cats [Grp 1 (cats [WordB, Cls is_alpha, Rep 0 False (Cls (\<lambda>c. is_alpha c \<or> is_space c))]),
           Alt (cats [chr CHR ''['', Plus (Cls is_digit), chr CHR '']''])
               (Grp 2 (Plus (Cls is_digit))),
           WordB]"

definition JUDGE_PAT :: regex where
  "JUDGE_PAT =
     cats [WordB, chr CHR ''J'', chr CHR ''.'', Opt (chr CHR '']''), Star (Cls is_space), Eos]"

definition DASH_PAT :: regex where
  "DASH_PAT = Plus (chr CHR ''-'')"

definition normalize_legal_entity :: "string \<Rightarrow> string" where
  "normalize_legal_entity text =
     (let t = normalize_unicode text;
          t = re_sub FOOTNOTE_PAT (\<lambda>_ cs. group_or_empty cs 1) t;
          t = re_sub JUDGE_PAT (\<lambda>_ _. []) (strip t);
          tokens = filter (\<lambda>tok. tok \<noteq> []) (re_split WS_PAT t);
          kept = filter (\<lambda>tok. strip_chars token_punct (lower tok) \<notin> set HONORIFICS) tokens;
          t = join '' '' kept;
          t = strip_stopwords t;
          t = collapse_initials t;
          t = expand_abbreviations t;
          t = normalize_sections t;
          t = re_sub DASH_PAT (\<lambda>_ _. '' '') t;
          t = lower (strip (re_sub WS_PAT (\<lambda>_ _. '' '') t))
      in re_sub WS_PAT (\<lambda>_ _. []) t)"

section \<open>nodes.py: canonical entity keys\<close>

text \<open>
  An argument of type \<^verbatim>\<open>str | None\<close> is a \<^typ>\<open>string option\<close>; \<^verbatim>\<open>x or ""\<close> is
  \<open>or_empty x\<close>, and \<open>truthy x\<close> is Python's truth value of it.
\<close>

definition or_empty :: "string option \<Rightarrow> string" where
  "or_empty x = (case x of None \<Rightarrow> [] | Some s \<Rightarrow> s)"

definition truthy :: "string option \<Rightarrow> bool" where
  "truthy x \<longleftrightarrow> or_empty x \<noteq> []"

definition normalize_label :: "string option \<Rightarrow> string" where
  "normalize_label label = upper (strip (or_empty label))"

text \<open>
  \<^verbatim>\<open>_normalize_text\<close>. The patterns are \<^verbatim>\<open>\b(vs?\.)\b\<close> under
  \<^verbatim>\<open>re.IGNORECASE\<close> and \<^verbatim>\<open>\b(?:[A-Za-z]\.?\s*){2,}\b\<close>; \<open>edge_punct\<close> is the ASCII
  part of the character set of the final \<^verbatim>\<open>strip\<close>.
\<close>

definition VS_PAT :: regex where
  "VS_PAT = cats [WordB, Grp 1 (cats [ichr CHR ''v'', Opt (ichr CHR ''s''), chr CHR ''.'']), WordB]"

definition KEY_INITIALS_PAT :: regex where
  "KEY_INITIALS_PAT =
     cats [WordB,
           Rep 2 True (cats [Cls is_alpha, Opt (chr CHR ''.''), Star (Cls is_space)]),
           WordB]"

definition edge_punct :: "char \<Rightarrow> bool" where
  "edge_punct c \<longleftrightarrow> c \<in> set [CHR '' '', CHR ''.'', CHR '','', CHR '':'', CHR '';'', CHR ''('',
                               CHR '')'', CHR ''['', CHR '']'', CHR ''{'', CHR ''}'', CHR 0x22,
                               CHR 0x27]"

definition normalize_text :: "string option \<Rightarrow> string" where
  "normalize_text text =
     (let s = or_empty text;
          s = re_sub VS_PAT (\<lambda>_ _. '' '') s;
          s = re_sub KEY_INITIALS_PAT (\<lambda>m _. filter is_alpha m) s;
          s = strip (re_sub WS_PAT (\<lambda>_ _. '' '') s);
          s = strip_chars edge_punct s
      in lower s)"

definition make_entity_key :: "string option \<Rightarrow> string option \<Rightarrow> string" where
  "make_entity_key label text = normalize_label label @ ''|'' @ normalize_text text"

section \<open>nodes.py: domain keyword augmentation\<close>

text \<open>
  An entity is a dictionary; a key that may be missing is an option, and
  \<open>e_augmented\<close> holds when the key \<^verbatim>\<open>_augmented\<close> is there (the code only ever
  stores \<^verbatim>\<open>True\<close> under it).
\<close>

record entity =
  e_label :: "string option"
  e_text :: "string option"
  e_start :: "nat option"
  e_end :: "nat option"
  e_score :: "real option"
  e_source :: "string option"
  e_augmented :: bool

definition KEYWORD_ENTITY_MAP :: "(string \<times> string) list" where
  "KEYWORD_ENTITY_MAP = [(''court'', ''ORG'')]"

text \<open>
  The pattern \<^verbatim>\<open>(?i)(?<!\w)kw(?!\w)\<close>; \<^verbatim>\<open>re.escape\<close> leaves a keyword of letters
  as it is.
\<close>

definition keyword_pat :: "string \<Rightarrow> regex" where
  "keyword_pat kw = cats [NotBehind is_word, ilit kw, NotAhead is_word]"

text \<open>
  The inner loop over the matches of one keyword: a match whose normalised text is
  already there is skipped (\<^verbatim>\<open>continue\<close>); the first other one is appended and ends
  the loop (\<^verbatim>\<open>break\<close>).
\<close>

fun keyword_loop ::
  "string \<Rightarrow> (nat \<times> nat \<times> string) list \<Rightarrow> entity list \<times> string set \<Rightarrow> entity list \<times> string set"
where
  "keyword_loop label [] acc = acc"
| "keyword_loop label ((st, en, sp) # ms) (entities, existing_norm) =
     (let norm = normalize_text (Some sp)
      in if norm \<in> existing_norm then keyword_loop label ms (entities, existing_norm)
         else (entities @ [\<lparr>e_label = Some label, e_text = Some sp, e_start = Some st,
                              e_end = Some en, e_score = Some 1, e_source = None,
                              e_augmented = True\<rparr>],
               insert norm existing_norm))"

definition augment_entities_with_keywords :: "string \<Rightarrow> entity list \<Rightarrow> entity list" where
  "augment_entities_with_keywords text entities =
     (let existing_norm = set (map (\<lambda>e. normalize_text (e_text e))
                                   (filter (\<lambda>e. truthy (e_text e)) entities))
      in fst (fold (\<lambda>(kw, label) acc. keyword_loop label (finditer (keyword_pat kw) text) acc)
                   KEYWORD_ENTITY_MAP (entities, existing_norm)))"

section \<open>The graph store\<close>

text \<open>
  The contents of the Neo4j store as far as the two read queries see them: the
  \<^verbatim>\<open>Entity\<close> nodes with their \<^verbatim>\<open>key\<close> and \<^verbatim>\<open>norm_key\<close>, and the
  \<^verbatim>\<open>MENTIONS\<close>, \<^verbatim>\<open>ALIAS_OF\<close> and \<^verbatim>\<open>PHONETIC_OF\<close> relationships, each with the key
  of the entity it points to (the key is unique by the constraint the ingestion
  creates).
\<close>

record graph_db =
  entity_nodes :: "(string \<times> string option) list"
  mentions :: "(string \<times> string) list"
  alias_of :: "(string \<times> string) list"
  phonetic_of :: "(string \<times> string) list"

type_synonym row = "string \<times> string \<times> string \<times> nat"

text \<open>
  \<^verbatim>\<open>RETURN e.key AS ekey, c.id AS id, reason, count(*) AS cnt\<close>: one row for each
  distinct pair, with the number of its occurrences; rows come in the order of first
  occurrence.
\<close>

fun remdups_first :: "'a list \<Rightarrow> 'a list" where
  "remdups_first [] = []"
| "remdups_first (x # xs) = x # remdups_first (filter (\<lambda>y. y \<noteq> x) xs)"

definition return_counted :: "string \<Rightarrow> (string \<times> string) list \<Rightarrow> row list" where
  "return_counted reason pairs =
     map (\<lambda>(ekey, cid). (ekey, cid, reason, count_list pairs (ekey, cid))) (remdups_first pairs)"

text \<open>\<^verbatim>\<open>MATCH (c:Chunk)-[:MENTIONS]->(e)\<close> for the entity with the key \<open>ekey\<close>.\<close>

definition chunks_of :: "graph_db \<Rightarrow> string \<Rightarrow> (string \<times> string) list" where
  "chunks_of g ekey =
     concat (map (\<lambda>(k, nk). if k = ekey
                              then map (\<lambda>(cid, mk). (ekey, cid)) (filter (\<lambda>(cid, mk). mk = ekey) (mentions g))
                              else [])
                 (entity_nodes g))"

text \<open>Cypher's \<^verbatim>\<open>split(key,'|')[1]\<close>; an index out of range gives \<^verbatim>\<open>null\<close>.\<close>

fun split_on :: "char \<Rightarrow> string \<Rightarrow> string list" where
  "split_on sep [] = [[]]"
| "split_on sep (c # cs) =
     (if c = sep then [] # split_on sep cs
      else (case split_on sep cs of [] \<Rightarrow> [[c]] | p # ps \<Rightarrow> (c # p) # ps))"

definition split_1 :: "string \<Rightarrow> string option" where
  "split_1 key = (case split_on CHR ''|'' key of _ # x # _ \<Rightarrow> Some x | _ \<Rightarrow> None)"

text \<open>
  \<^verbatim>\<open>query_tx_strict\<close>: the four parts of the Cypher text joined by \<^verbatim>\<open>UNION\<close>, which
  drops repeated rows. The parameter \<^verbatim>\<open>$limit\<close> is handed to \<^verbatim>\<open>tx.run\<close>, and the
  Cypher text does not refer to it.
\<close>

definition query_tx_strict ::
  "graph_db \<Rightarrow> string list \<Rightarrow> string list \<Rightarrow> string list \<Rightarrow> int \<Rightarrow> row list" where
  "query_tx_strict g keys norm_keys phonetics limit =
     remdups_first
       (return_counted ''direct''
          (concat (map (\<lambda>key. chunks_of g key) keys)) @
        return_counted ''norm_key''
          (concat (map (\<lambda>nkey. concat (map (\<lambda>(k, nk). if nk = Some nkey then chunks_of g k else [])
                                            (entity_nodes g))) norm_keys)) @
        return_counted ''alias''
          (concat (map (\<lambda>key. concat (map (\<lambda>(name, k). if Some name = split_1 key
                                                          then chunks_of g k else [])
                                           (alias_of g))) keys)) @
        return_counted ''phonetic''
          (concat (map (\<lambda>key. concat (map (\<lambda>ph.
                     concat (map (\<lambda>(code, k). if code = ph then chunks_of g k else [])
                                 (phonetic_of g))) phonetics)) keys)))"

text \<open>\<^verbatim>\<open>query_tx_text_only\<close>: the label-agnostic query.\<close>

definition query_tx_text_only ::
  "graph_db \<Rightarrow> string list \<Rightarrow> string list \<Rightarrow> int \<Rightarrow> row list" where
  "query_tx_text_only g norms phonetics limit =
     remdups_first
       (return_counted ''text_norm''
          (concat (map (\<lambda>norm_text.
              concat (map (\<lambda>(k, nk). if split_1 k = Some norm_text \<or>
                                         (case nk of None \<Rightarrow> False
                                          | Some n \<Rightarrow> split_1 n = Some norm_text)
                                      then chunks_of g k else [])
                          (entity_nodes g))) norms)) @
        return_counted ''alias''
          (concat (map (\<lambda>norm_text. concat (map (\<lambda>(name, k). if name = norm_text
                                                                then chunks_of g k else [])
                                                 (alias_of g))) norms)) @
        return_counted ''phonetic''
          (concat (map (\<lambda>ph. concat (map (\<lambda>(code, k). if code = ph then chunks_of g k else [])
                                          (phonetic_of g))) phonetics)))"

text \<open>
  What the node finds behind the driver: \<^verbatim>\<open>GraphDatabase.driver\<close> raises on a
  configuration it rejects (outside the node's \<^verbatim>\<open>try\<close>); a store that cannot be
  reached raises in \<^verbatim>\<open>session.execute_read\<close>; otherwise the store answers from its
  contents. The string is the text of the exception.
\<close>

datatype neo4j = DriverError string | Unreachable string | Serving graph_db

datatype query = StrictQuery | TextOnlyQuery

section \<open>nodes.py: the pipeline state\<close>

text \<open>
  The state is a dictionary; each key the two nodes read or write is a field, \<open>None\<close>
  when the key is missing (\<open>kg_error\<close> is \<open>None\<close> also when the key holds
  \<^verbatim>\<open>None\<close>). \<open>embed_results\<close> is the entry \<^verbatim>\<open>ids\<close> of the dictionary stored
  under that key. Dictionaries from chunk ids are maps.
\<close>

record query_entity =
  q_label :: "string option"
  q_text :: "string option"
  q_source :: "string option"
  q_key :: "string option"

record source_counts =
  sc_chroma :: nat
  sc_kg :: nat
  sc_both :: nat
  sc_selected :: nat
  sc_chroma_available :: bool
  sc_kg_available :: bool

record state =
  query_entities :: "query_entity list option"
  query_has_ruler :: "bool option"
  strict_match :: "bool option"
  neo4j_password :: "string option"
  kg_limit :: "int option"
  top_k :: "int option"
  embed_results :: "string list list option"
  chroma_ids :: "string list option"
  chroma_available :: "bool option"
  kg_ids :: "string list option"
  kg_available :: "bool option"
  kg_error :: "string option"
  kg_matched_keys :: "string list option"
  kg_requested_keys :: "string list option"
  kg_match_reasons :: "(string \<rightharpoonup> string list) option"
  kg_ruler_hit_ids :: "string list option"
  final_ids :: "string list option"
  provenance :: "(string \<rightharpoonup> string list) option"
  provenance_extra :: "(string \<rightharpoonup> string list) option"
  source_counts :: "source_counts option"

text \<open>
  The loop that both nodes use to drop repeated ids:
  \<^verbatim>\<open>for x in xs: if x not in seen: ordered.append(x); seen.add(x)\<close>.
\<close>

fun append_unseen :: "string list \<Rightarrow> string list \<times> string set \<Rightarrow> string list \<times> string set" where
  "append_unseen [] acc = acc"
| "append_unseen (x # xs) (ordered, seen) =
     append_unseen xs (if x \<notin> seen then (ordered @ [x], insert x seen) else (ordered, seen))"

text \<open>\<^verbatim>\<open>d.setdefault(k, set()).add(v)\<close> and \<^verbatim>\<open>d.setdefault(k, []).append(v)\<close>.\<close>

definition set_add :: "(string \<rightharpoonup> string set) \<Rightarrow> string \<Rightarrow> string \<Rightarrow> (string \<rightharpoonup> string set)" where
  "set_add d k v = d(k \<mapsto> insert v (case d k of None \<Rightarrow> {} | Some vs \<Rightarrow> vs))"

definition list_append :: "(string \<rightharpoonup> string list) \<Rightarrow> string \<Rightarrow> string \<Rightarrow> (string \<rightharpoonup> string list)" where
  "list_append d k v = d(k \<mapsto> (case d k of None \<Rightarrow> [] | Some vs \<Rightarrow> vs) @ [v])"

text \<open>\<^verbatim>\<open>{k: sorted(list(v)) for k, v in d.items()}\<close>.\<close>

definition sorted_values :: "(string \<rightharpoonup> string set) \<Rightarrow> (string \<rightharpoonup> string list)" where
  "sorted_values d = (\<lambda>k. map_option sorted_list_of_set (d k))"

section \<open>nodes.py: neo4j\_query\_by\_entities\_node\<close>

record match_params =
  keys :: "string list"
  norm_aliases :: "string list"
  norm_keys :: "string list"
  phonetics :: "string list"

text \<open>The body of the loop over the query entities.\<close>

definition entity_params :: "query_entity \<Rightarrow> match_params \<Rightarrow> match_params" where
  "entity_params e p =
     (if \<not> truthy (q_text e) then p
      else
        let label = q_label e;
            text = q_text e;
            p = p\<lparr>keys := keys p @ [make_entity_key label text]\<rparr>;
            nt = normalize_legal_entity (or_empty text)
        in if nt = [] then p
           else
             let p = p\<lparr>norm_aliases := norm_aliases p @ [nt]\<rparr>;
                 p = (if label \<noteq> None
                      then p\<lparr>norm_keys := norm_keys p @ [make_entity_key label (Some nt)]\<rparr>
                      else p);
                 ph = phonetic_key nt
             in if ph \<noteq> [] then p\<lparr>phonetics := phonetics p @ [ph]\<rparr> else p)"

definition collect_params :: "query_entity list \<Rightarrow> match_params" where
  "collect_params raw_ents =
     fold entity_params raw_ents \<lparr>keys = [], norm_aliases = [], norm_keys = [], phonetics = []\<rparr>"

text \<open>
  The rows the node works on, with the queries it ran: the strict query, and the
  label-agnostic one when the strict query gave no row and \<^verbatim>\<open>strict\<close> is off.
\<close>

definition run_queries ::
  "graph_db \<Rightarrow> match_params \<Rightarrow> bool \<Rightarrow> int \<Rightarrow> row list \<times> query list" where
  "run_queries g p strict limit =
     (let rows = query_tx_strict g (keys p) (norm_keys p) (phonetics p) limit
      in if rows = [] \<and> \<not> strict
         then (query_tx_text_only g (norm_aliases p) (phonetics p) limit,
               [StrictQuery, TextOnlyQuery])
         else (rows, [StrictQuery]))"

definition reasons_of :: "row list \<Rightarrow> (string \<rightharpoonup> string set)" where
  "reasons_of rows = fold (\<lambda>(key, cid, reason, cnt) d. set_add d cid reason) rows Map.empty"

definition is_fuzzy :: "(string \<rightharpoonup> string set) \<Rightarrow> string \<Rightarrow> bool" where
  "is_fuzzy reasons_map cid \<longleftrightarrow>
     (\<exists>r \<in> (case reasons_map cid of None \<Rightarrow> {} | Some rs \<Rightarrow> rs). r \<in> set [''alias'', ''phonetic''])"

text \<open>
  What the node reads from the state: \<^verbatim>\<open>state.get("query_entities", [])\<close>,
  \<^verbatim>\<open>bool(state.get("strict_match", True))\<close>, \<^verbatim>\<open>int(state.get("kg_limit", 25))\<close>
  and \<^verbatim>\<open>bool(state.get("query_has_ruler", False))\<close>.
\<close>

definition raw_ents_of :: "state \<Rightarrow> query_entity list" where
  "raw_ents_of state = (case query_entities state of None \<Rightarrow> [] | Some es \<Rightarrow> es)"

definition strict_of :: "state \<Rightarrow> bool" where
  "strict_of state = (case strict_match state of None \<Rightarrow> True | Some b \<Rightarrow> b)"

definition limit_of :: "state \<Rightarrow> int" where
  "limit_of state = (case kg_limit state of None \<Rightarrow> 25 | Some n \<Rightarrow> n)"

definition ruler_query_of :: "state \<Rightarrow> bool" where
  "ruler_query_of state = (case query_has_ruler state of None \<Rightarrow> False | Some b \<Rightarrow> b)"

text \<open>
  The node returns the new state and, for the record, the queries it sent; \<open>Inl\<close> is an
  exception that leaves the node.
\<close>

definition neo4j_query_by_entities_node :: "neo4j \<Rightarrow> state \<Rightarrow> string + (state \<times> query list)" where
  "neo4j_query_by_entities_node db state =
     (let p = collect_params (raw_ents_of state)
      in if keys p = []
         then Inr (state\<lparr>kg_ids := Some [], kg_available := Some True, kg_error := None,
                          kg_matched_keys := Some [], kg_requested_keys := Some []\<rparr>, [])
         else
           let strict = strict_of state;
               password = neo4j_password state;
               limit = limit_of state
           in if \<not> truthy password
              then Inr (state\<lparr>kg_ids := Some [], kg_available := Some False,
                               kg_error := Some ''neo4j_password not provided''\<rparr>, [])
              else
                (case db of
                   DriverError msg \<Rightarrow> Inl msg
                 | Unreachable msg \<Rightarrow>
                     Inr (state\<lparr>kg_ids := Some [], kg_available := Some False,
                                 kg_error := Some msg, kg_matched_keys := Some [],
                                 kg_requested_keys := Some (keys p)\<rparr>, [StrictQuery])
                 | Serving g \<Rightarrow>
                     let (rows, sent) = run_queries g p strict limit;
                         ids = map (\<lambda>(key, cid, reason, cnt). cid) rows;
                         reasons_map = reasons_of rows;
                         matched_keys_set = set (map (\<lambda>(key, cid, reason, cnt). key) rows);
                         ruler_query = ruler_query_of state;
                         ordered_ids = fst (append_unseen ids ([], {}));
                         ruler_hit_ids = (if ruler_query
                                          then filter (is_fuzzy reasons_map) ordered_ids else [])
                     in Inr (state\<lparr>kg_ids := Some ordered_ids, kg_available := Some True,
                                    kg_error := None,
                                    kg_matched_keys := Some (sorted_list_of_set matched_keys_set),
                                    kg_requested_keys := Some (keys p),
                                    kg_match_reasons := Some (sorted_values reasons_map),
                                    kg_ruler_hit_ids := Some ruler_hit_ids\<rparr>, sent)))"

section \<open>nodes.py: merge\_ids\_node\<close>

text \<open>The slice \<^verbatim>\<open>xs[:k]\<close>; a negative \<open>k\<close> counts from the end.\<close>

definition slice_to :: "'a list \<Rightarrow> int \<Rightarrow> 'a list" where
  "slice_to xs k = (if k < 0 then take (length xs - nat (- k)) xs else take (nat k) xs)"

text \<open>
  What the node reads from the state: \<^verbatim>\<open>(emb.get("ids") or [[]])[0]\<close>,
  \<^verbatim>\<open>list(state.get("kg_ids", []))\<close>, \<^verbatim>\<open>int(state.get("top_k", 10))\<close> and
  \<^verbatim>\<open>list(state.get("chroma_ids") or emb_ids or [])\<close>.
\<close>

definition emb_ids_of :: "state \<Rightarrow> string list" where
  "emb_ids_of state = (case embed_results state of None \<Rightarrow> [] | Some [] \<Rightarrow> [] | Some (x # _) \<Rightarrow> x)"

definition kg_ids_of :: "state \<Rightarrow> string list" where
  "kg_ids_of state = (case kg_ids state of None \<Rightarrow> [] | Some xs \<Rightarrow> xs)"

definition top_k_of :: "state \<Rightarrow> int" where
  "top_k_of state = (case top_k state of None \<Rightarrow> 10 | Some k \<Rightarrow> k)"

definition chroma_ids_of :: "state \<Rightarrow> string list" where
  "chroma_ids_of state =
     (case chroma_ids state of None \<Rightarrow> emb_ids_of state | Some [] \<Rightarrow> emb_ids_of state
      | Some (x # xs) \<Rightarrow> x # xs)"

definition merge_ids_node :: "state \<Rightarrow> state" where
  "merge_ids_node state =
     (let emb_ids = emb_ids_of state;
          kg = kg_ids_of state;
          ordered = fst (append_unseen emb_ids (append_unseen kg ([], {})));
          final = slice_to ordered (top_k_of state);
          chroma = chroma_ids_of state;
          prov = fold (\<lambda>cid d. set_add d cid ''chroma'') chroma Map.empty;
          prov = fold (\<lambda>kid d. set_add d kid ''kg'') kg prov;
          prov_extra = fold (\<lambda>cid d. list_append d cid ''EntityRuler regex hit'')
                            (case kg_ruler_hit_ids state of None \<Rightarrow> [] | Some xs \<Rightarrow> xs) Map.empty;
          both = filter (\<lambda>i. i \<in> set kg) chroma;
          counts = \<lparr>sc_chroma = length chroma, sc_kg = length kg, sc_both = length both,
                    sc_selected = length final,
                    sc_chroma_available =
                      (case chroma_available state of None \<Rightarrow> False | Some b \<Rightarrow> b),
                    sc_kg_available =
                      (case kg_available state of None \<Rightarrow> False | Some b \<Rightarrow> b)\<rparr>
      in state\<lparr>final_ids := Some final, provenance := Some (sorted_values prov),
                provenance_extra := Some prov_extra, source_counts := Some counts\<rparr>)"

section \<open>graph.py: the retrieval pipeline from the graph query to the merge\<close>

text \<open>The edge \<^verbatim>\<open>kg_query \<rightarrow> merge\<close> of \<^verbatim>\<open>build_retrieve_graph\<close>.\<close>

definition kg_query_then_merge :: "neo4j \<Rightarrow> state \<Rightarrow> string + state" where
  "kg_query_then_merge db state =
     (case neo4j_query_by_entities_node db state of
        Inl err \<Rightarrow> Inl err
      | Inr (state', sent) \<Rightarrow> Inr (merge_ids_node state'))"

text \<open>The state with no key set, from which concrete states are built.\<close>

definition empty_state :: state where
  "empty_state =
     \<lparr>query_entities = None, query_has_ruler = None, strict_match = None,
      neo4j_password = None, kg_limit = None, top_k = None, embed_results = None,
      chroma_ids = None, chroma_available = None, kg_ids = None, kg_available = None,
      kg_error = None, kg_matched_keys = None, kg_requested_keys = None,
      kg_match_reasons = None, kg_ruler_hit_ids = None, final_ids = None,
      provenance = None, provenance_extra = None, source_counts = None\<rparr>"

section \<open>Concrete inputs\<close>

text \<open>The fusion example of the specification: graph ids c3, c1, vector ids c1, c2, c4,
  top\_k 3.\<close>

definition fusion_example :: state where
  "fusion_example =
     empty_state\<lparr>kg_ids := Some [''c3'', ''c1''],
                 embed_results := Some [[''c1'', ''c2'', ''c4'']],
                 chroma_ids := Some [''c1'', ''c2'', ''c4''],
                 top_k := Some 3\<rparr>"

text \<open>
  A store with one entity that is reached through an alias only, and a query for
  "Kala Devi" that hits it; the same query with a ruler entity in it.
\<close>

definition alias_store :: graph_db where
  "alias_store =
     \<lparr>entity_nodes = [(''PERSON|smt kaladevi'', None)],
      mentions = [(''doc1:0'', ''PERSON|smt kaladevi'')],
      alias_of = [(''kaladevi'', ''PERSON|smt kaladevi'')],
      phonetic_of = []\<rparr>"

definition alias_query :: state where
  "alias_query =
     empty_state\<lparr>query_entities := Some [\<lparr>q_label = Some ''PERSON'', q_text = Some ''Kala Devi'',
                                            q_source = Some ''ner'',
                                            q_key = Some ''PERSON|kaladevi''\<rparr>],
                 neo4j_password := Some ''secret''\<rparr>"

definition alias_ruler_query :: state where
  "alias_ruler_query =
     empty_state\<lparr>query_entities := Some [\<lparr>q_label = Some ''PERSON'', q_text = Some ''Kala Devi'',
                                            q_source = Some ''ruler'',
                                            q_key = Some ''PERSON|kaladevi''\<rparr>],
                 query_has_ruler := Some True,
                 neo4j_password := Some ''secret''\<rparr>"

text \<open>
  A store with two entities, each mentioned by one chunk, and a query for both with
  kg\_limit 1.
\<close>

definition two_entity_store :: graph_db where
  "two_entity_store =
     \<lparr>entity_nodes = [(''PERSON|rao'', None), (''ORG|court'', None)],
      mentions = [(''doc1:0'', ''PERSON|rao''), (''doc1:1'', ''ORG|court'')],
      alias_of = [],
      phonetic_of = []\<rparr>"

definition two_entity_query :: state where
  "two_entity_query =
     empty_state\<lparr>query_entities := Some [\<lparr>q_label = Some ''PERSON'', q_text = Some ''Rao'',
                                            q_source = Some ''ner'',
                                            q_key = Some ''PERSON|rao''\<rparr>,
                                          \<lparr>q_label = Some ''ORG'', q_text = Some ''court'',
                                            q_source = None,
                                            q_key = Some ''ORG|court''\<rparr>],
                 kg_limit := Some 1,
                 neo4j_password := Some ''secret''\<rparr>"



text \<open>A query with one entity and a password, for a store that is down.\<close>

definition degraded_query :: state where
  "degraded_query =
     empty_state\<lparr>query_entities := Some [\<lparr>q_label = Some ''PERSON'', q_text = Some ''Rao'',
                                            q_source = Some ''ner'',
                                            q_key = Some ''PERSON|rao''\<rparr>],
                 neo4j_password := Some ''secret'',
                 embed_results := Some [[''c1'', ''c2'', ''c4'']],
                 chroma_ids := Some [''c1'', ''c2'', ''c4''],
                 top_k := Some 2\<rparr>"

section \<open>The words of the specification\<close>

text \<open>
  "The standalone word kw (case-insensitive, not adjacent to word characters)" occurs in
  the text at position \<open>i\<close>.
\<close>

definition standalone_at :: "string \<Rightarrow> string \<Rightarrow> nat \<Rightarrow> bool" where
  "standalone_at kw text i \<longleftrightarrow>
     i + length kw \<le> length text \<and>
     lower (take (length kw) (drop i text)) = lower kw \<and>
     (i = 0 \<or> \<not> is_word (text ! (i - 1))) \<and>
     (i + length kw = length text \<or> \<not> is_word (text ! (i + length kw)))"

text \<open>The synthetic entity for the keyword found at position \<open>i\<close> of the text.\<close>

definition court_entity :: "string \<Rightarrow> nat \<Rightarrow> entity" where
  "court_entity text i =
     \<lparr>e_label = Some ''ORG'', e_text = Some (take 5 (drop i text)), e_start = Some i,
      e_end = Some (i + 5), e_score = Some 1, e_source = None, e_augmented = True\<rparr>"

text \<open>The ways of writing "court" in upper and lower case.\<close>

definition court_variants :: "string list" where
  "court_variants =
     [[a, b, c, d, e]. a \<leftarrow> ''cC'', b \<leftarrow> ''oO'', c \<leftarrow> ''uU'', d \<leftarrow> ''rR'', e \<leftarrow> ''tT'']"

text \<open>
  The keyword pattern for "court" matches at a position: no word character before it,
  the five letters in either case, no word character behind them.
\<close>

definition court_here :: "string \<Rightarrow> string \<Rightarrow> bool" where
  "court_here bef rest \<longleftrightarrow>
     (bef = [] \<or> \<not> is_word (hd bef)) \<and> 5 \<le> length rest \<and> lower (take 5 rest) = ''court'' \<and>
     (length rest = 5 \<or> \<not> is_word (rest ! 5))"

text \<open>
  The entity key as the specification words it: the label upper-cased and trimmed, a
  bar, and the text passed through the matching-time normalisation.
\<close>

definition make_key_spec :: "string option \<Rightarrow> string option \<Rightarrow> string" where
  "make_key_spec label text =
     upper (strip (or_empty label)) @ ''|'' @ normalize_legal_entity (or_empty text)"






section \<open>nodes.py: the call sites of the keyword augmentation\<close>

text \<open>
  The first call site, in \<^verbatim>\<open>neo4j_ingest_node\<close>: an item of the input is a
  dictionary with a text and an entity list, and the entities the node goes on to
  ingest for it are
  \<^verbatim>\<open>_augment_entities_with_keywords(obj.get("text") or "", obj.get("entities", []) or [])\<close>;
  an item left with no entity is skipped.
\<close>

record ner_item =
  i_text :: "string option"
  i_entities :: "entity list option"

definition ingest_item_entities :: "ner_item \<Rightarrow> entity list" where
  "ingest_item_entities obj =
     (let ents = (case i_entities obj of None \<Rightarrow> [] | Some es \<Rightarrow> es);
          src_text = or_empty (i_text obj)
      in augment_entities_with_keywords src_text ents)"

text \<open>
  The second call site, in \<^verbatim>\<open>ner_query_external_node\<close>, after the extractor has
  run: \<open>extracted\<close> is the entity list of the line the extractor wrote, \<open>None\<close> when
  it wrote no line (then nothing is augmented). The loop body turns an entity with a
  text into a query entity and notes whether it came from the entity ruler; the node
  stores the result under \<^verbatim>\<open>query_entities\<close> and \<^verbatim>\<open>query_has_ruler\<close>.
\<close>

definition query_entity_step ::
  "entity \<Rightarrow> query_entity list \<times> bool \<Rightarrow> query_entity list \<times> bool" where
  "query_entity_step e acc =
     (let text = strip (or_empty (e_text e));
          label = or_empty (e_label e)
      in if text \<noteq> []
         then (fst acc @ [\<lparr>q_label = Some label, q_text = Some text, q_source = e_source e,
                             q_key = Some (make_entity_key (Some label) (Some text))\<rparr>],
               snd acc \<or> e_source e = Some ''ruler'')
         else acc)"

definition query_entities_of :: "string \<Rightarrow> entity list option \<Rightarrow> query_entity list \<times> bool" where
  "query_entities_of query extracted =
     (case extracted of
        None \<Rightarrow> ([], False)
      | Some ents \<Rightarrow>
          fold query_entity_step (augment_entities_with_keywords query ents) ([], False))"

definition store_query_entities :: "string \<Rightarrow> entity list option \<Rightarrow> state \<Rightarrow> state" where
  "store_query_entities query extracted state =
     state\<lparr>query_entities := Some (fst (query_entities_of query extracted)),
            query_has_ruler := Some (snd (query_entities_of query extracted))\<rparr>"

section \<open>Properties of the merge\<close>

lemma append_unseen_eq:
  "append_unseen xs (ord, seen) =
     (ord @ remdups_first (filter (\<lambda>x. x \<notin> seen) xs), seen \<union> set xs)"
proof (induction xs arbitrary: ord seen)
  case Nil
  then show ?case by simp
next
  case (Cons x xs)
  show ?case
  proof (cases "x \<in> seen")
    case True
    then show ?thesis by (simp add: Cons.IH insert_absorb)
  next
    case False
    then show ?thesis by (simp add: Cons.IH conj_commute)
  qed
qed

lemma set_remdups_first [simp]: "set (remdups_first xs) = set xs"
proof (induction xs rule: remdups_first.induct)
  case 1
  show ?case by simp
next
  case (2 x xs)
  then show ?case by auto
qed

lemma merge_ordered:
  "fst (append_unseen vec (append_unseen kg ([], {}))) =
     remdups_first kg @ remdups_first (filter (\<lambda>v. v \<notin> set kg) vec)"
  by (simp add: append_unseen_eq)

text \<open>
  C3, the claim as stated, at the fusion example with top\_k -2: the slice drops the last
  two of the four ordered ids, so two ids are returned, which is neither at most top\_k
  ids nor a cut to the first top\_k.
\<close>

theorem negative_top_k_counterexample:
  "top_k (fusion_example\<lparr>top_k := Some (- 2)\<rparr>) = Some (- 2) \<and>
   final_ids (merge_ids_node (fusion_example\<lparr>top_k := Some (- 2)\<rparr>)) = Some [''c3'', ''c1'']"
  by (simp add: fusion_example_def empty_state_def merge_ids_node_def slice_to_def Let_def
      emb_ids_of_def kg_ids_of_def top_k_of_def)

text \<open>
  C3, amended. For a top\_k that is not negative, the final ids are the graph ids in their
  order, each at its first occurrence, then the vector ids that are not graph ids, in
  their order and each at its first occurrence, cut to the first top\_k. For the graph
  ids c3, c1, the vector ids c1, c2, c4 and top\_k 3 they are c3, c1, c2.
\<close>

theorem merge_final_ids_kg_first:
  "(kg_ids st = Some kg \<longrightarrow> embed_results st = Some (vec # others) \<longrightarrow>
    top_k st = Some k \<longrightarrow> 0 \<le> k \<longrightarrow>
      final_ids (merge_ids_node st) =
        Some (take (nat k) (remdups_first kg @ remdups_first (filter (\<lambda>v. v \<notin> set kg) vec))))
   \<and> final_ids (merge_ids_node (empty_state\<lparr>kg_ids := Some [''c3'', ''c1''],
          embed_results := Some [[''c1'', ''c2'', ''c4'']], top_k := Some 3\<rparr>)) =
        Some [''c3'', ''c1'', ''c2'']"
proof (intro conjI impI)
  assume "kg_ids st = Some kg" "embed_results st = Some (vec # others)"
    "top_k st = Some k" "0 \<le> k"
  then show "final_ids (merge_ids_node st) =
        Some (take (nat k) (remdups_first kg @ remdups_first (filter (\<lambda>v. v \<notin> set kg) vec)))"
    by (simp add: merge_ids_node_def Let_def merge_ordered slice_to_def emb_ids_of_def
        kg_ids_of_def top_k_of_def)
next
  show "final_ids (merge_ids_node (empty_state\<lparr>kg_ids := Some [''c3'', ''c1''],
          embed_results := Some [[''c1'', ''c2'', ''c4'']], top_k := Some 3\<rparr>)) =
        Some [''c3'', ''c1'', ''c2'']"
    by (simp add: empty_state_def merge_ids_node_def slice_to_def Let_def emb_ids_of_def
        kg_ids_of_def top_k_of_def)
qed

theorem merge_final_ids_kg_first_witness:
  "kg_ids (empty_state\<lparr>kg_ids := Some [''c3'', ''c1'', ''c3''],
        embed_results := Some [[''c1'', ''c2'', ''c2'', ''c4'']], top_k := Some 3\<rparr>) =
      Some [''c3'', ''c1'', ''c3'']
   \<and> (0::int) \<le> 3
   \<and> final_ids (merge_ids_node (empty_state\<lparr>kg_ids := Some [''c3'', ''c1'', ''c3''],
        embed_results := Some [[''c1'', ''c2'', ''c2'', ''c4'']], top_k := Some 3\<rparr>)) =
        Some [''c3'', ''c1'', ''c2'']"
  using merge_final_ids_kg_first [of "empty_state\<lparr>kg_ids := Some [''c3'', ''c1'', ''c3''],
        embed_results := Some [[''c1'', ''c2'', ''c2'', ''c4'']], top_k := Some 3\<rparr>"
        "[''c3'', ''c1'', ''c3'']" "[''c1'', ''c2'', ''c2'', ''c4'']" "[]" 3]
  by (simp add: empty_state_def)

section \<open>Properties of the normaliser and the phonetic key\<close>


lemma fold_set_add:
  "fold (\<lambda>k d. set_add d k v) xs d k' =
     (if k' \<in> set xs then Some (insert v (case d k' of None \<Rightarrow> {} | Some s \<Rightarrow> s)) else d k')"
  by (induction xs arbitrary: d) (auto simp: set_add_def)

lemma dom_fold_set_add: "dom (fold (\<lambda>k d. set_add d k v) xs d) = dom d \<union> set xs"
  by (auto simp: dom_def fold_set_add)

lemma distinct_remdups_first [simp]: "distinct (remdups_first xs)"
proof (induction xs rule: remdups_first.induct)
  case 1
  show ?case by simp
next
  case (2 x xs)
  then show ?case by simp
qed

lemma distinct_merge_ordered:
  "distinct (remdups_first kg @ remdups_first (filter (\<lambda>v. v \<notin> set kg) vec))"
  by auto

lemma slice_to_props:
  "set (slice_to xs k) \<subseteq> set xs"
  "distinct xs \<Longrightarrow> distinct (slice_to xs k)"
  "0 \<le> k \<Longrightarrow> length (slice_to xs k) \<le> nat k"
  by (auto simp: slice_to_def dest: in_set_takeD)

lemma dom_sorted_values [simp]: "dom (sorted_values d) = dom d"
  by (auto simp: sorted_values_def dom_def)

lemma of_top_k_update [simp]:
  "emb_ids_of (st\<lparr>top_k := k\<rparr>) = emb_ids_of st"
  "kg_ids_of (st\<lparr>top_k := k\<rparr>) = kg_ids_of st"
  "chroma_ids_of (st\<lparr>top_k := k\<rparr>) = chroma_ids_of st"
  by (simp_all add: emb_ids_of_def kg_ids_of_def chroma_ids_of_def split: option.splits list.splits)

text \<open>
  C5, the claim as stated, at the fusion example: c4 is cut by top\_k 3 and is still a
  key of the provenance map.
\<close>

theorem provenance_covers_truncated_counterexample:
  "(case provenance (merge_ids_node fusion_example) of None \<Rightarrow> None | Some p \<Rightarrow> p ''c4'') =
      Some [''chroma'']
   \<and> final_ids (merge_ids_node fusion_example) = Some [''c3'', ''c1'', ''c2'']"
  by (simp add: fusion_example_def empty_state_def merge_ids_node_def slice_to_def
      sorted_values_def set_add_def Let_def emb_ids_of_def kg_ids_of_def top_k_of_def
      chroma_ids_of_def)

text \<open>
  C5, amended. Whatever top\_k is, the counts chroma, kg and both are the lengths of the
  full vector id list, of the full graph id list and of the vector ids that are graph
  ids (the numbers of distinct ids when no id is repeated); selected is the length of
  the final ids. The final ids are distinct ids of the two lists, at most top\_k of them
  when top\_k is not negative, and the provenance map has a key for every id of either
  list, cut or not.
\<close>

theorem merge_counts_and_provenance:
  "map_option (\<lambda>c. (sc_chroma c, sc_kg c, sc_both c))
       (source_counts (merge_ids_node (st\<lparr>top_k := k\<rparr>))) =
     Some (length (chroma_ids_of st), length (kg_ids_of st),
           length (filter (\<lambda>i. i \<in> set (kg_ids_of st)) (chroma_ids_of st)))
   \<and> (distinct (chroma_ids_of st) \<longrightarrow> distinct (kg_ids_of st) \<longrightarrow>
        length (chroma_ids_of st) = card (set (chroma_ids_of st)) \<and>
        length (kg_ids_of st) = card (set (kg_ids_of st)) \<and>
        length (filter (\<lambda>i. i \<in> set (kg_ids_of st)) (chroma_ids_of st)) =
          card (set (chroma_ids_of st) \<inter> set (kg_ids_of st)))
   \<and> map_option sc_selected (source_counts (merge_ids_node st)) =
        map_option length (final_ids (merge_ids_node st))
   \<and> (\<exists>ids. final_ids (merge_ids_node st) = Some ids \<and> distinct ids \<and>
          set ids \<subseteq> set (emb_ids_of st) \<union> set (kg_ids_of st) \<and>
          (0 \<le> top_k_of st \<longrightarrow> length ids \<le> nat (top_k_of st)))
   \<and> (\<exists>p. provenance (merge_ids_node st) = Some p \<and>
          dom p = set (chroma_ids_of st) \<union> set (kg_ids_of st))"
proof (intro conjI impI)
  show "map_option (\<lambda>c. (sc_chroma c, sc_kg c, sc_both c))
       (source_counts (merge_ids_node (st\<lparr>top_k := k\<rparr>))) =
     Some (length (chroma_ids_of st), length (kg_ids_of st),
           length (filter (\<lambda>i. i \<in> set (kg_ids_of st)) (chroma_ids_of st)))"
    by (simp add: merge_ids_node_def Let_def)
next
  assume "distinct (chroma_ids_of st)"
  then show "length (chroma_ids_of st) = card (set (chroma_ids_of st))"
    by (simp add: distinct_card)
next
  assume "distinct (kg_ids_of st)"
  then show "length (kg_ids_of st) = card (set (kg_ids_of st))"
    by (simp add: distinct_card)
next
  assume d: "distinct (chroma_ids_of st)"
  have "set (filter (\<lambda>i. i \<in> set (kg_ids_of st)) (chroma_ids_of st)) =
        set (chroma_ids_of st) \<inter> set (kg_ids_of st)"
    by auto
  moreover have "distinct (filter (\<lambda>i. i \<in> set (kg_ids_of st)) (chroma_ids_of st))"
    using d by simp
  ultimately show "length (filter (\<lambda>i. i \<in> set (kg_ids_of st)) (chroma_ids_of st)) =
          card (set (chroma_ids_of st) \<inter> set (kg_ids_of st))"
    using distinct_card by metis
next
  show "map_option sc_selected (source_counts (merge_ids_node st)) =
        map_option length (final_ids (merge_ids_node st))"
    by (simp add: merge_ids_node_def Let_def)
next
  let ?ord = "remdups_first (kg_ids_of st) @
              remdups_first (filter (\<lambda>v. v \<notin> set (kg_ids_of st)) (emb_ids_of st))"
  have f: "final_ids (merge_ids_node st) = Some (slice_to ?ord (top_k_of st))"
    by (simp add: merge_ids_node_def Let_def merge_ordered)
  have "set (slice_to ?ord (top_k_of st)) \<subseteq> set (emb_ids_of st) \<union> set (kg_ids_of st)"
    using slice_to_props(1) [of ?ord "top_k_of st"] by auto
  moreover have "distinct (slice_to ?ord (top_k_of st))"
    using slice_to_props(2) [OF distinct_merge_ordered] .
  moreover have "0 \<le> top_k_of st \<longrightarrow> length (slice_to ?ord (top_k_of st)) \<le> nat (top_k_of st)"
    using slice_to_props(3) by blast
  ultimately show "\<exists>ids. final_ids (merge_ids_node st) = Some ids \<and> distinct ids \<and>
          set ids \<subseteq> set (emb_ids_of st) \<union> set (kg_ids_of st) \<and>
          (0 \<le> top_k_of st \<longrightarrow> length ids \<le> nat (top_k_of st))"
    using f by blast
next
  show "\<exists>p. provenance (merge_ids_node st) = Some p \<and>
          dom p = set (chroma_ids_of st) \<union> set (kg_ids_of st)"
    by (simp add: merge_ids_node_def Let_def dom_fold_set_add)
qed

theorem merge_counts_and_provenance_witness:
  "distinct (chroma_ids_of fusion_example) \<and> distinct (kg_ids_of fusion_example)
   \<and> 0 \<le> top_k_of fusion_example
   \<and> length (chroma_ids_of fusion_example) = 3
   \<and> length (kg_ids_of fusion_example) = 2
   \<and> card (set (chroma_ids_of fusion_example) \<inter> set (kg_ids_of fusion_example)) = 1
   \<and> map_option (\<lambda>c. (sc_chroma c, sc_kg c, sc_both c))
       (source_counts (merge_ids_node (fusion_example\<lparr>top_k := Some 1\<rparr>))) = Some (3, 2, 1)
   \<and> map_option sc_selected (source_counts (merge_ids_node fusion_example)) = Some 3"
  using merge_counts_and_provenance [where st = fusion_example and k = "Some 1"]
  by (simp add: fusion_example_def empty_state_def chroma_ids_of_def kg_ids_of_def
      top_k_of_def emb_ids_of_def merge_ids_node_def Let_def slice_to_def)

section \<open>Properties of the graph matcher\<close>

lemma keys_entity_params:
  "keys (entity_params e p) =
     keys p @ (if truthy (q_text e) then [make_entity_key (q_label e) (q_text e)] else [])"
  by (simp add: entity_params_def Let_def)

lemma keys_fold_entity_params:
  "keys (fold entity_params es p) =
     keys p @ map (\<lambda>e. make_entity_key (q_label e) (q_text e))
                  (filter (\<lambda>e. truthy (q_text e)) es)"
  by (induction es arbitrary: p) (simp_all add: keys_entity_params)

lemma keys_collect_params:
  "keys (collect_params es) =
     map (\<lambda>e. make_entity_key (q_label e) (q_text e)) (filter (\<lambda>e. truthy (q_text e)) es)"
  by (simp add: collect_params_def keys_fold_entity_params)

lemma no_keys_iff: "keys (collect_params es) = [] \<longleftrightarrow> (\<forall>e \<in> set es. \<not> truthy (q_text e))"
  by (simp add: keys_collect_params filter_empty_conv)

text \<open>
  C4. The store holds two entities, each mentioned by one chunk; the query asks for
  both with kg\_limit 1. Both keys are matched and both chunks are returned: the limit
  is not applied.
\<close>

theorem kg_limit_not_applied:
  "kg_limit two_entity_query = Some 1 \<and>
   (case neo4j_query_by_entities_node (Serving two_entity_store) two_entity_query of
      Inl err \<Rightarrow> None
    | Inr (s, sent) \<Rightarrow> Some (kg_matched_keys s, kg_ids s)) =
     Some (Some [''ORG|court'', ''PERSON|rao''], Some [''doc1:0'', ''doc1:1''])"
  by code_simp

text \<open>
  C6, the claim as stated, at a state with no query entity and no password, the store
  being down: the node returns kg\_available true and no diagnostic.
\<close>

theorem no_entities_reports_available_counterexample:
  "neo4j_password empty_state = None \<and>
   (case neo4j_query_by_entities_node (Unreachable ''connection refused'') empty_state of
      Inl err \<Rightarrow> None
    | Inr (s, sent) \<Rightarrow> Some (kg_ids s, kg_available s, kg_error s)) =
     Some (Some [], Some True, None)"
  by (simp add: neo4j_query_by_entities_node_def empty_state_def collect_params_def
      raw_ents_of_def)

lemma degrades_with_entities:
  assumes "\<exists>e \<in> set (raw_ents_of st). truthy (q_text e)"
    and "\<not> truthy (neo4j_password st) \<or> db = Unreachable msg"
  shows "\<exists>st' sent.
           neo4j_query_by_entities_node db st = Inr (st', sent) \<and>
           kg_query_then_merge db st = Inr (merge_ids_node st') \<and>
           kg_ids st' = Some [] \<and> kg_available st' = Some False \<and>
           kg_error st' = Some (if \<not> truthy (neo4j_password st)
                                then ''neo4j_password not provided'' else msg) \<and>
           final_ids (merge_ids_node st') =
             Some (slice_to (remdups_first (emb_ids_of st)) (top_k_of st)) \<and>
           (0 \<le> top_k_of st \<longrightarrow>
              final_ids (merge_ids_node st') =
                Some (take (nat (top_k_of st)) (remdups_first (emb_ids_of st)))) \<and>
           map_option sc_kg_available (source_counts (merge_ids_node st')) = Some False"
proof -
  have k: "keys (collect_params (raw_ents_of st)) \<noteq> []"
    using assms(1) by (simp add: no_keys_iff)
  show ?thesis
  proof (cases "truthy (neo4j_password st)")
    case False
    with k show ?thesis
      by (simp add: neo4j_query_by_entities_node_def kg_query_then_merge_def Let_def
          merge_ids_node_def merge_ordered emb_ids_of_def kg_ids_of_def top_k_of_def
          slice_to_def)
  next
    case True
    with assms(2) have "db = Unreachable msg" by simp
    with k True show ?thesis
      by (simp add: neo4j_query_by_entities_node_def kg_query_then_merge_def Let_def
          merge_ids_node_def merge_ordered emb_ids_of_def kg_ids_of_def top_k_of_def
          slice_to_def)
  qed
qed

lemma available_without_entities:
  assumes "\<forall>e \<in> set (raw_ents_of st). \<not> truthy (q_text e)"
  shows "neo4j_query_by_entities_node db st =
           Inr (st\<lparr>kg_ids := Some [], kg_available := Some True, kg_error := None,
                    kg_matched_keys := Some [], kg_requested_keys := Some []\<rparr>, [])"
proof -
  have "keys (collect_params (raw_ents_of st)) = []"
    using assms by (simp add: no_keys_iff)
  then show ?thesis
    by (simp add: neo4j_query_by_entities_node_def)
qed

text \<open>
  C6, amended. When some query entity has a text that is not empty, and the password is
  missing or the store cannot be reached, the node returns without raising: no chunk
  id, kg\_available false, and as diagnostic "neo4j\_password not provided" or the text
  of the exception. The merge then gives the vector ids in their order, each at its
  first occurrence, cut to top\_k when that is not negative, and its counts carry
  kg\_available false. When no query entity has a text, the node returns, whatever the
  password and the store are, with no chunk id, kg\_available true and no diagnostic,
  and sends no query.
\<close>

theorem unavailable_graph_degrades:
  "((\<exists>e \<in> set (raw_ents_of st). truthy (q_text e)) \<longrightarrow>
    (\<not> truthy (neo4j_password st) \<or> db = Unreachable msg) \<longrightarrow>
      (\<exists>st' sent.
           neo4j_query_by_entities_node db st = Inr (st', sent) \<and>
           kg_query_then_merge db st = Inr (merge_ids_node st') \<and>
           kg_ids st' = Some [] \<and> kg_available st' = Some False \<and>
           kg_error st' = Some (if \<not> truthy (neo4j_password st)
                                then ''neo4j_password not provided'' else msg) \<and>
           final_ids (merge_ids_node st') =
             Some (slice_to (remdups_first (emb_ids_of st)) (top_k_of st)) \<and>
           (0 \<le> top_k_of st \<longrightarrow>
              final_ids (merge_ids_node st') =
                Some (take (nat (top_k_of st)) (remdups_first (emb_ids_of st)))) \<and>
           map_option sc_kg_available (source_counts (merge_ids_node st')) = Some False))
   \<and> ((\<forall>e \<in> set (raw_ents_of st). \<not> truthy (q_text e)) \<longrightarrow>
        neo4j_query_by_entities_node db st =
          Inr (st\<lparr>kg_ids := Some [], kg_available := Some True, kg_error := None,
                   kg_matched_keys := Some [], kg_requested_keys := Some []\<rparr>, []))"
  using degrades_with_entities [of st db msg] available_without_entities [of st db]
  by blast

theorem unavailable_graph_degrades_witness:
  "(\<exists>e \<in> set (raw_ents_of degraded_query). truthy (q_text e)) \<and>
   (\<exists>st' sent.
      neo4j_query_by_entities_node (Unreachable ''connection refused'') degraded_query =
        Inr (st', sent) \<and>
      kg_ids st' = Some [] \<and> kg_available st' = Some False \<and>
      kg_error st' = Some ''connection refused'' \<and>
      final_ids (merge_ids_node st') = Some [''c1'', ''c2''] \<and>
      map_option sc_kg_available (source_counts (merge_ids_node st')) = Some False)"
proof -
  have h1: "\<exists>e \<in> set (raw_ents_of degraded_query). truthy (q_text e)"
    by (simp add: degraded_query_def empty_state_def raw_ents_of_def truthy_def or_empty_def)
  have h2: "\<not> truthy (neo4j_password degraded_query) \<or>
            Unreachable ''connection refused'' = Unreachable ''connection refused''"
    by simp
  have t: "truthy (neo4j_password degraded_query)"
    by (simp add: degraded_query_def empty_state_def truthy_def or_empty_def)
  have e: "emb_ids_of degraded_query = [''c1'', ''c2'', ''c4'']" "top_k_of degraded_query = 2"
    by (simp_all add: degraded_query_def empty_state_def emb_ids_of_def top_k_of_def)
  from unavailable_graph_degrades [of degraded_query "Unreachable ''connection refused''"
      "''connection refused''"] h1 h2
  obtain st' sent where
    r: "neo4j_query_by_entities_node (Unreachable ''connection refused'') degraded_query =
          Inr (st', sent)"
      "kg_ids st' = Some []" "kg_available st' = Some False"
      "kg_error st' = Some (if \<not> truthy (neo4j_password degraded_query)
                            then ''neo4j_password not provided'' else ''connection refused'')"
      "final_ids (merge_ids_node st') =
         Some (slice_to (remdups_first (emb_ids_of degraded_query)) (top_k_of degraded_query))"
      "map_option sc_kg_available (source_counts (merge_ids_node st')) = Some False"
    by blast
  have "final_ids (merge_ids_node st') = Some [''c1'', ''c2'']"
    using r(5) by (simp add: e slice_to_def)
  with r t h1 show ?thesis by auto
qed

lemma remdups_first_filter_True [simp]: "filter (\<lambda>x. x \<notin> {}) xs = xs"
  by simp

lemma ordered_ids_eq: "fst (append_unseen ids ([], {})) = remdups_first ids"
  by (simp add: append_unseen_eq)


lemma run_queries_rows:
  "query_tx_strict g (keys p) (norm_keys p) (phonetics p) limit \<noteq> [] \<Longrightarrow>
     fst (run_queries g p strict limit) =
       query_tx_strict g (keys p) (norm_keys p) (phonetics p) limit"
  by (simp add: run_queries_def Let_def)








lemma count_list_distinct: "distinct xs \<Longrightarrow> x \<in> set xs \<Longrightarrow> count_list xs x = 1"
  by (induction xs) (auto simp: count_list_0_iff)

lemma list_append_apply:
  "list_append d x v k =
     (if k = x then Some ((case d x of None \<Rightarrow> [] | Some vs \<Rightarrow> vs) @ [v]) else d k)"
  by (simp add: list_append_def)

lemma set_add_apply:
  "set_add d x v k =
     (if k = x then Some (insert v (case d x of None \<Rightarrow> {} | Some vs \<Rightarrow> vs)) else d k)"
  by (simp add: set_add_def)

lemma fold_list_append:
  "fold (\<lambda>cid d. list_append d cid tag) xs d k =
     (if k \<in> set xs
      then Some ((case d k of None \<Rightarrow> [] | Some vs \<Rightarrow> vs) @ replicate (count_list xs k) tag)
      else d k)"
proof (induction xs arbitrary: d)
  case Nil
  show ?case by simp
next
  case (Cons x xs)
  have "fold (\<lambda>cid d. list_append d cid tag) (x # xs) d k =
        fold (\<lambda>cid d. list_append d cid tag) xs (list_append d x tag) k"
    by simp
  also have "\<dots> =
        (if k \<in> set xs
         then Some ((case list_append d x tag k of None \<Rightarrow> [] | Some vs \<Rightarrow> vs) @
                    replicate (count_list xs k) tag)
         else list_append d x tag k)"
    by (rule Cons.IH)
  also have "\<dots> =
        (if k \<in> set (x # xs)
         then Some ((case d k of None \<Rightarrow> [] | Some vs \<Rightarrow> vs) @
                    replicate (count_list (x # xs) k) tag)
         else d k)"
    by (auto simp: list_append_apply replicate_append_same count_list_0_iff)
  finally show ?case .
qed

lemma fold_list_append_distinct:
  "distinct xs \<Longrightarrow>
     fold (\<lambda>cid d. list_append d cid tag) xs Map.empty k =
       (if k \<in> set xs then Some [tag] else None)"
  by (simp add: fold_list_append count_list_distinct)

lemma fold_reasons:
  "fold (\<lambda>(key, cid, reason, cnt) d. set_add d cid reason) rows d c =
     (if c \<in> (\<lambda>(key, cid, reason, cnt). cid) ` set rows
      then Some ({reason. \<exists>key cnt. (key, c, reason, cnt) \<in> set rows} \<union>
                 (case d c of None \<Rightarrow> {} | Some rs \<Rightarrow> rs))
      else d c)"
proof (induction rows arbitrary: d)
  case Nil
  show ?case by simp
next
  case (Cons r rows)
  obtain key cid reason cnt where r: "r = (key, cid, reason, cnt)"
    by (cases r) auto
  have "fold (\<lambda>(key, cid, reason, cnt) d. set_add d cid reason) (r # rows) d c =
        fold (\<lambda>(key, cid, reason, cnt) d. set_add d cid reason) rows (set_add d cid reason) c"
    by (simp add: r)
  also have "\<dots> =
        (if c \<in> (\<lambda>(key, cid, reason, cnt). cid) ` set rows
         then Some ({reason. \<exists>key cnt. (key, c, reason, cnt) \<in> set rows} \<union>
                    (case set_add d cid reason c of None \<Rightarrow> {} | Some rs \<Rightarrow> rs))
         else set_add d cid reason c)"
    by (rule Cons.IH)
  also have "\<dots> =
        (if c \<in> (\<lambda>(key, cid, reason, cnt). cid) ` set (r # rows)
         then Some ({reason. \<exists>key cnt. (key, c, reason, cnt) \<in> set (r # rows)} \<union>
                    (case d c of None \<Rightarrow> {} | Some rs \<Rightarrow> rs))
         else d c)"
    unfolding r by (auto simp: set_add_apply split: option.splits; force)
  finally show ?case .
qed

lemma reasons_of_eq:
  "reasons_of rows c =
     (if c \<in> (\<lambda>(key, cid, reason, cnt). cid) ` set rows
      then Some {reason. \<exists>key cnt. (key, c, reason, cnt) \<in> set rows} else None)"
  by (simp add: reasons_of_def fold_reasons)

lemma finite_reasons: "finite {reason. \<exists>key cnt. (key, c, reason, cnt) \<in> set rows}"
proof -
  have "{reason. \<exists>key cnt. (key, c, reason, cnt) \<in> set rows} \<subseteq>
        (\<lambda>(key, cid, reason, cnt). reason) ` set rows"
    by force
  then show ?thesis
    by (rule finite_subset) simp
qed

lemma is_fuzzy_sorted_values:
  "is_fuzzy (reasons_of rows) cid \<longleftrightarrow>
     (\<exists>rs. sorted_values (reasons_of rows) cid = Some rs \<and>
           (''alias'' \<in> set rs \<or> ''phonetic'' \<in> set rs))"
  by (auto simp: is_fuzzy_def sorted_values_def reasons_of_eq finite_reasons)

lemma ruler_query_of_True: "ruler_query_of st \<longleftrightarrow> query_has_ruler st = Some True"
  by (simp add: ruler_query_of_def split: option.splits)

text \<open>
  C8, the claim as stated, at a query with no ruler entity: the chunk doc1:0 is matched
  through an alias, and the merged output has no auxiliary tag for it.
\<close>

theorem alias_match_untagged_counterexample:
  "(case kg_query_then_merge (Serving alias_store) alias_query of
      Inl err \<Rightarrow> None
    | Inr r \<Rightarrow> Some (kg_ids r,
                      (case kg_match_reasons r of None \<Rightarrow> None | Some m \<Rightarrow> m ''doc1:0''),
                      (case provenance_extra r of None \<Rightarrow> None | Some m \<Rightarrow> m ''doc1:0''))) =
     Some (Some [''doc1:0''], Some [''alias''], None)"
  by code_simp

text \<open>
  C8, amended. When the node queries the store, the merged output attaches the tag
  "EntityRuler regex hit" to a chunk exactly when the query had a ruler entity
  (query\_has\_ruler), the chunk is among the graph ids and its reasons contain "alias"
  or "phonetic"; no other chunk and no query without a ruler entity gets a tag.
\<close>

theorem fuzzy_tag_iff_ruler_query:
  assumes "keys (collect_params (raw_ents_of st)) \<noteq> []" and "truthy (neo4j_password st)"
  shows "\<exists>st' sent ids reasons px.
           neo4j_query_by_entities_node (Serving g) st = Inr (st', sent) \<and>
           kg_query_then_merge (Serving g) st = Inr (merge_ids_node st') \<and>
           kg_ids st' = Some ids \<and> kg_match_reasons st' = Some reasons \<and>
           provenance_extra (merge_ids_node st') = Some px \<and>
           (\<forall>cid. px cid =
              (if query_has_ruler st = Some True \<and> cid \<in> set ids \<and>
                  (\<exists>rs. reasons cid = Some rs \<and> (''alias'' \<in> set rs \<or> ''phonetic'' \<in> set rs))
               then Some [''EntityRuler regex hit''] else None))"
proof -
  let ?p = "collect_params (raw_ents_of st)"
  obtain rows sent where rq: "run_queries g ?p (strict_of st) (limit_of st) = (rows, sent)"
    by (cases "run_queries g ?p (strict_of st) (limit_of st)") auto
  let ?ids = "remdups_first (map (\<lambda>(key, cid, reason, cnt). cid) rows)"
  let ?hits = "if ruler_query_of st then filter (is_fuzzy (reasons_of rows)) ?ids else []"
  let ?st' = "st\<lparr>kg_ids := Some ?ids, kg_available := Some True, kg_error := None,
                  kg_matched_keys :=
                    Some (sorted_list_of_set (set (map (\<lambda>(key, cid, reason, cnt). key) rows))),
                  kg_requested_keys := Some (keys ?p),
                  kg_match_reasons := Some (sorted_values (reasons_of rows)),
                  kg_ruler_hit_ids := Some ?hits\<rparr>"
  have n: "neo4j_query_by_entities_node (Serving g) st = Inr (?st', sent)"
    using assms rq by (simp add: neo4j_query_by_entities_node_def Let_def ordered_ids_eq)
  have m: "kg_query_then_merge (Serving g) st = Inr (merge_ids_node ?st')"
    by (simp add: kg_query_then_merge_def n)
  have d: "distinct ?hits" by simp
  have px: "provenance_extra (merge_ids_node ?st') =
              Some (fold (\<lambda>cid d. list_append d cid ''EntityRuler regex hit'') ?hits Map.empty)"
    by (simp add: merge_ids_node_def Let_def)
  have "\<forall>cid. fold (\<lambda>cid d. list_append d cid ''EntityRuler regex hit'') ?hits Map.empty cid =
              (if query_has_ruler st = Some True \<and> cid \<in> set ?ids \<and>
                  (\<exists>rs. sorted_values (reasons_of rows) cid = Some rs \<and>
                        (''alias'' \<in> set rs \<or> ''phonetic'' \<in> set rs))
               then Some [''EntityRuler regex hit''] else None)"
    unfolding fold_list_append_distinct [OF d]
    by (simp add: ruler_query_of_True is_fuzzy_sorted_values)
  with n m px show ?thesis
    by (intro exI [of _ ?st'] exI [of _ sent] exI [of _ ?ids]
        exI [of _ "sorted_values (reasons_of rows)"]
        exI [of _ "fold (\<lambda>cid d. list_append d cid ''EntityRuler regex hit'') ?hits Map.empty"])
       simp
qed

theorem fuzzy_tag_iff_ruler_query_witness:
  "keys (collect_params (raw_ents_of alias_ruler_query)) \<noteq> [] \<and>
   truthy (neo4j_password alias_ruler_query) \<and>
   (\<exists>st' sent ids reasons px.
      neo4j_query_by_entities_node (Serving alias_store) alias_ruler_query = Inr (st', sent) \<and>
      kg_ids st' = Some ids \<and> kg_match_reasons st' = Some reasons \<and>
      provenance_extra (merge_ids_node st') = Some px \<and>
      (\<forall>cid. px cid =
         (if query_has_ruler alias_ruler_query = Some True \<and> cid \<in> set ids \<and>
             (\<exists>rs. reasons cid = Some rs \<and> (''alias'' \<in> set rs \<or> ''phonetic'' \<in> set rs))
          then Some [''EntityRuler regex hit''] else None)))"
proof -
  have k: "keys (collect_params (raw_ents_of alias_ruler_query)) \<noteq> []"
    by code_simp
  have t: "truthy (neo4j_password alias_ruler_query)"
    by (simp add: alias_ruler_query_def empty_state_def truthy_def or_empty_def)
  from fuzzy_tag_iff_ruler_query [OF k t, of alias_store] k t show ?thesis
    by blast
qed

section \<open>Properties of the keyword augmentation\<close>

lemma lower_court [simp]:
  "lower_char CHR ''c'' = CHR ''c''" "lower_char CHR ''o'' = CHR ''o''"
  "lower_char CHR ''u'' = CHR ''u''" "lower_char CHR ''r'' = CHR ''r''"
  "lower_char CHR ''t'' = CHR ''t''"
  by (simp_all add: lower_char_def)

lemma match_here_court:
  "match_here (keyword_pat ''court'') bef rest =
     (if court_here bef rest then Some (rev (take 5 rest) @ bef, drop 5 rest, []) else None)"
proof (cases rest)
  case Nil
  then show ?thesis
    by (simp add: match_here_def keyword_pat_def ichr_def court_here_def split: list.splits)
next
  case (Cons c1 r1)
  show ?thesis
  proof (cases r1)
    case Nil
    with Cons show ?thesis
    by (simp add: match_here_def keyword_pat_def ichr_def court_here_def split: list.splits)
  next
    case (Cons c2 r2)
    note r1 = this
    show ?thesis
    proof (cases r2)
      case Nil
      with r1 \<open>rest = c1 # r1\<close> show ?thesis
        by (simp add: match_here_def keyword_pat_def ichr_def court_here_def split: list.splits)
    next
      case (Cons c3 r3)
      note r2 = this
      show ?thesis
      proof (cases r3)
        case Nil
        with r2 r1 \<open>rest = c1 # r1\<close> show ?thesis
          by (simp add: match_here_def keyword_pat_def ichr_def court_here_def split: list.splits)
      next
        case (Cons c4 r4)
        note r3 = this
        show ?thesis
        proof (cases r4)
          case Nil
          with r3 r2 r1 \<open>rest = c1 # r1\<close> show ?thesis
            by (simp add: match_here_def keyword_pat_def ichr_def court_here_def split: list.splits)
        next
          case (Cons c5 r5)
          with r3 r2 r1 \<open>rest = c1 # r1\<close> show ?thesis
            by (cases r5; cases bef)
               (auto simp: match_here_def keyword_pat_def ichr_def court_here_def lower_def)
        qed
      qed
    qed
  qed
qed

lemma finditer_court_unfold:
  "finditer_from (keyword_pat ''court'') bef rest =
     (if court_here bef rest
      then (length bef, length bef + 5, take 5 rest) #
           finditer_from (keyword_pat ''court'') (rev (take 5 rest) @ bef) (drop 5 rest)
      else (case rest of [] \<Rightarrow> []
            | c # cs \<Rightarrow> finditer_from (keyword_pat ''court'') (c # bef) cs))"
proof (cases "court_here bef rest")
  case True
  then have "5 \<le> length rest" by (simp add: court_here_def)
  then have a: "length rest - 5 < length rest" "length rest - (length rest - 5) = 5"
    "length bef + length rest - (length rest - 5) = length bef + 5"
    by simp_all
  with True show ?thesis
    by (subst finditer_from.simps) (simp add: match_here_court)
next
  case False
  then show ?thesis
    by (subst finditer_from.simps) (simp add: match_here_court)
qed

lemma standalone_court:
  "standalone_at ''court'' text i \<longleftrightarrow>
     i + 5 \<le> length text \<and> lower (take 5 (drop i text)) = ''court'' \<and>
     (i = 0 \<or> \<not> is_word (text ! (i - 1))) \<and>
     (i + 5 = length text \<or> \<not> is_word (text ! (i + 5)))"
proof -
  have l: "length ''court'' = 5" "lower ''court'' = ''court''"
    by (simp_all add: lower_def)
  show ?thesis
    by (simp only: standalone_at_def l)
qed

lemma court_here_standalone:
  "court_here bef rest \<longleftrightarrow> standalone_at ''court'' (rev bef @ rest) (length bef)"
proof (cases bef)
  case Nil
  then show ?thesis by (auto simp: court_here_def standalone_court)
next
  case (Cons b bs)
  then show ?thesis
    by (auto simp: court_here_def standalone_court nth_append)
qed

lemma finditer_court_first:
  "case finditer_from (keyword_pat ''court'') bef rest of
     [] \<Rightarrow> (\<forall>i \<ge> length bef. \<not> standalone_at ''court'' (rev bef @ rest) i)
   | (st, en, sp) # _ \<Rightarrow>
       length bef \<le> st \<and> standalone_at ''court'' (rev bef @ rest) st \<and>
       (\<forall>j. length bef \<le> j \<and> j < st \<longrightarrow> \<not> standalone_at ''court'' (rev bef @ rest) j) \<and>
       en = st + 5 \<and> sp = take 5 (drop st (rev bef @ rest))"
proof (induction rest arbitrary: bef)
  case Nil
  show ?case
    by (subst finditer_court_unfold) (simp add: court_here_def standalone_court)
next
  case (Cons c cs)
  show ?case
  proof (cases "court_here bef (c # cs)")
    case True
    then show ?thesis
      by (subst finditer_court_unfold) (auto simp: court_here_standalone)
  next
    case False
    have no: "\<not> standalone_at ''court'' (rev bef @ c # cs) (length bef)"
      using False by (simp add: court_here_standalone)
    have step: "\<And>j. length bef \<le> j \<Longrightarrow> j \<noteq> length bef \<Longrightarrow> Suc (length bef) \<le> j"
      by simp
    from Cons.IH [of "c # bef"] False no show ?thesis
      by (subst finditer_court_unfold)
         (auto split: list.splits dest: le_neq_implies_less simp: Suc_le_eq)
  qed
qed

lemma finditer_court_spans:
  "(st, en, sp) \<in> set (finditer_from (keyword_pat ''court'') bef rest) \<Longrightarrow>
     lower sp = ''court''"
proof (induction "length rest" arbitrary: bef rest rule: less_induct)
  case less
  show ?case
  proof (cases "court_here bef rest")
    case True
    then have l: "5 \<le> length rest" "lower (take 5 rest) = ''court''"
      by (simp_all add: court_here_def)
    from less.prems True
    have "(st, en, sp) = (length bef, length bef + 5, take 5 rest) \<or>
          (st, en, sp) \<in> set (finditer_from (keyword_pat ''court'')
                                 (rev (take 5 rest) @ bef) (drop 5 rest))"
      by (subst (asm) finditer_court_unfold) simp
    then show ?thesis
    proof
      assume "(st, en, sp) = (length bef, length bef + 5, take 5 rest)"
      with l show ?thesis by simp
    next
      assume "(st, en, sp) \<in> set (finditer_from (keyword_pat ''court'')
                                     (rev (take 5 rest) @ bef) (drop 5 rest))"
      moreover have "length (drop 5 rest) < length rest" using l by simp
      ultimately show ?thesis by (rule less.hyps [rotated])
    qed
  next
    case False
    show ?thesis
    proof (cases rest)
      case Nil
      with less.prems False show ?thesis
        by (subst (asm) finditer_court_unfold) simp
    next
      case (Cons c cs)
      with less.prems False
      have "(st, en, sp) \<in> set (finditer_from (keyword_pat ''court'') (c # bef) cs)"
        by (subst (asm) finditer_court_unfold) simp
      moreover have "length cs < length rest" using Cons by simp
      ultimately show ?thesis by (rule less.hyps [rotated])
    qed
  qed
qed

lemma lower_char_court_iff:
  "lower_char x = CHR ''c'' \<longleftrightarrow> x = CHR ''c'' \<or> x = CHR ''C''"
  "lower_char x = CHR ''o'' \<longleftrightarrow> x = CHR ''o'' \<or> x = CHR ''O''"
  "lower_char x = CHR ''u'' \<longleftrightarrow> x = CHR ''u'' \<or> x = CHR ''U''"
  "lower_char x = CHR ''r'' \<longleftrightarrow> x = CHR ''r'' \<or> x = CHR ''R''"
  "lower_char x = CHR ''t'' \<longleftrightarrow> x = CHR ''t'' \<or> x = CHR ''T''"
  by (auto simp: lower_char_def split: if_splits)

lemma lower_court_variants: "lower sp = ''court'' \<Longrightarrow> sp \<in> set court_variants"
proof -
  assume a: "lower sp = ''court''"
  then have "length sp = 5"
    using length_map [of lower_char sp] by (simp add: lower_def)
  then obtain a b c d e where sp: "sp = [a, b, c, d, e]"
    by (auto simp: length_Suc_conv eval_nat_numeral)
  from a have "a = CHR ''c'' \<or> a = CHR ''C''" "b = CHR ''o'' \<or> b = CHR ''O''"
    "c = CHR ''u'' \<or> c = CHR ''U''" "d = CHR ''r'' \<or> d = CHR ''R''"
    "e = CHR ''t'' \<or> e = CHR ''T''"
    unfolding sp by (simp_all add: lower_def lower_char_court_iff)
  then show ?thesis
    unfolding sp court_variants_def by (elim disjE; simp)
qed

lemma normalize_text_court_variants:
  "list_all (\<lambda>sp. normalize_text (Some sp) = ''court'') court_variants"
  by code_simp

lemma normalize_text_court: "lower sp = ''court'' \<Longrightarrow> normalize_text (Some sp) = ''court''"
  using lower_court_variants [of sp] normalize_text_court_variants
  by (simp add: list_all_iff)

lemma keyword_loop_skip:
  "\<forall>(st, en, sp) \<in> set ms. normalize_text (Some sp) \<in> existing \<Longrightarrow>
     keyword_loop label ms (entities, existing) = (entities, existing)"
  by (induction ms) auto

lemma existing_norm_court:
  "''court'' \<in> set (map (\<lambda>e. normalize_text (e_text e)) (filter (\<lambda>e. truthy (e_text e)) entities))
     \<longleftrightarrow> (\<exists>e \<in> set entities. truthy (e_text e) \<and> normalize_text (e_text e) = ''court'')"
  by force

lemma augment_unfold:
  "augment_entities_with_keywords text entities =
     fst (keyword_loop ''ORG'' (finditer_from (keyword_pat ''court'') [] text)
            (entities, set (map (\<lambda>e. normalize_text (e_text e))
                                (filter (\<lambda>e. truthy (e_text e)) entities))))"
  by (simp add: augment_entities_with_keywords_def KEYWORD_ENTITY_MAP_def finditer_def Let_def)

lemma finditer_court_text:
  "case finditer_from (keyword_pat ''court'') [] text of
     [] \<Rightarrow> (\<forall>i. \<not> standalone_at ''court'' text i)
   | (st, en, sp) # _ \<Rightarrow>
       standalone_at ''court'' text st \<and> (\<forall>j < st. \<not> standalone_at ''court'' text j) \<and>
       en = st + 5 \<and> sp = take 5 (drop st text)"
  using finditer_court_first [of "[]" "text"] by (auto split: list.splits)

lemma finditer_court_norm:
  "\<forall>(st, en, sp) \<in> set (finditer_from (keyword_pat ''court'') bef rest).
     normalize_text (Some sp) = ''court''"
  using finditer_court_spans normalize_text_court by blast

lemma augmentation_court:
  "(standalone_at ''court'' txt i \<longrightarrow> (\<forall>j < i. \<not> standalone_at ''court'' txt j) \<longrightarrow>
      (\<forall>e \<in> set entities. truthy (e_text e) \<longrightarrow> normalize_text (e_text e) \<noteq> ''court'') \<longrightarrow>
        augment_entities_with_keywords txt entities = entities @ [court_entity txt i])
   \<and> ((\<forall>i. \<not> standalone_at ''court'' txt i) \<or>
       (\<exists>e \<in> set entities. truthy (e_text e) \<and> normalize_text (e_text e) = ''court'') \<longrightarrow>
        augment_entities_with_keywords txt entities = entities)
   \<and> (\<forall>i. standalone_at ''court'' txt i \<longrightarrow>
          normalize_text (Some (take 5 (drop i txt))) = ''court'')"
proof (intro conjI impI allI)
  let ?ms = "finditer_from (keyword_pat ''court'') [] txt"
  let ?ex = "set (map (\<lambda>e. normalize_text (e_text e)) (filter (\<lambda>e. truthy (e_text e)) entities))"
  assume occ: "standalone_at ''court'' txt i"
    and least: "\<forall>j < i. \<not> standalone_at ''court'' txt j"
    and none: "\<forall>e \<in> set entities. truthy (e_text e) \<longrightarrow> normalize_text (e_text e) \<noteq> ''court''"
  from occ finditer_court_text [of "txt"] obtain st en sp ms' where ms: "?ms = (st, en, sp) # ms'"
    by (cases ?ms) auto
  with finditer_court_text [of "txt"] have f: "standalone_at ''court'' txt st"
    "\<forall>j < st. \<not> standalone_at ''court'' txt j" "en = st + 5" "sp = take 5 (drop st txt)"
    by simp_all
  have "st = i"
    using f(1) f(2) occ least by (meson nat_neq_iff)
  moreover have "normalize_text (Some sp) = ''court''"
    using finditer_court_norm [of "[]" "txt"] ms by simp
  moreover have "''court'' \<notin> ?ex"
    using none by (simp only: existing_norm_court) blast
  ultimately show "augment_entities_with_keywords txt entities = entities @ [court_entity txt i]"
    using f(3) f(4) by (simp add: augment_unfold ms court_entity_def)
next
  let ?ms = "finditer_from (keyword_pat ''court'') [] txt"
  let ?ex = "set (map (\<lambda>e. normalize_text (e_text e)) (filter (\<lambda>e. truthy (e_text e)) entities))"
  assume a: "(\<forall>i. \<not> standalone_at ''court'' txt i) \<or>
       (\<exists>e \<in> set entities. truthy (e_text e) \<and> normalize_text (e_text e) = ''court'')"
  show "augment_entities_with_keywords txt entities = entities"
  proof (cases "\<forall>i. \<not> standalone_at ''court'' txt i")
    case True
    with finditer_court_text [of "txt"] have "?ms = []" by (cases ?ms) auto
    then show ?thesis by (simp add: augment_unfold)
  next
    case False
    with a have "''court'' \<in> ?ex"
      by (simp only: existing_norm_court) blast
    with finditer_court_norm [of "[]" "txt"]
    have "\<forall>(st, en, sp) \<in> set ?ms. normalize_text (Some sp) \<in> ?ex"
      by auto
    then show ?thesis
      by (simp add: augment_unfold keyword_loop_skip)
  qed
next
  fix i
  assume "standalone_at ''court'' txt i"
  then have "lower (take 5 (drop i txt)) = ''court''"
    by (simp add: standalone_court)
  then show "normalize_text (Some (take 5 (drop i txt))) = ''court''"
    by (rule normalize_text_court)
qed

lemma strip_court_variants:
  "list_all (\<lambda>sp. strip sp = sp \<and> sp \<noteq> []) court_variants"
  by code_simp

lemma strip_court: "lower sp = ''court'' \<Longrightarrow> strip sp = sp \<and> sp \<noteq> []"
  using lower_court_variants [of sp] strip_court_variants
  by (simp add: list_all_iff)

lemma org_label: "normalize_label (Some ''ORG'') = ''ORG''"
  by code_simp

lemma court_query_entity:
  assumes "standalone_at ''court'' txt i"
  shows "query_entity_step (court_entity txt i) acc =
           (fst acc @ [\<lparr>q_label = Some ''ORG'', q_text = Some (take 5 (drop i txt)),
                          q_source = None, q_key = Some ''ORG|court''\<rparr>], snd acc)"
proof -
  from assms have l: "lower (take 5 (drop i txt)) = ''court''"
    by (simp add: standalone_court)
  have k: "make_entity_key (Some ''ORG'') (Some (take 5 (drop i txt))) = ''ORG|court''"
    using normalize_text_court [OF l] by (simp add: make_entity_key_def org_label)
  show ?thesis
    using strip_court [OF l] k
    by (simp add: query_entity_step_def court_entity_def or_empty_def Let_def)
qed

text \<open>
  C10. Let the text and the texts of the entities be ASCII. If the standalone word
  "court" occurs in the text, first at position \<open>i\<close>, and no entity with a text
  normalises to "court", exactly one entity is appended: label ORG, score 1, the text
  and the span of that first occurrence. If the word does not occur, or some entity
  with a text normalises to "court", the list is returned as it is. Every way of
  writing "court" in upper and lower case normalises to "court". The ingestion takes
  the augmented list as the entities of an item, and the query node builds the query
  entities from the augmented list: the appended entity becomes the query entity with
  the key ORG|court.
\<close>

theorem keyword_augmentation_court:
  "isascii txt \<longrightarrow> (\<forall>e \<in> set entities. isascii (or_empty (e_text e))) \<longrightarrow>
    ((standalone_at ''court'' txt i \<longrightarrow> (\<forall>j < i. \<not> standalone_at ''court'' txt j) \<longrightarrow>
       (\<forall>e \<in> set entities. truthy (e_text e) \<longrightarrow> normalize_text (e_text e) \<noteq> ''court'') \<longrightarrow>
         augment_entities_with_keywords txt entities = entities @ [court_entity txt i] \<and>
         ingest_item_entities \<lparr>i_text = Some txt, i_entities = Some entities\<rparr> =
           entities @ [court_entity txt i] \<and>
         query_entities_of txt (Some entities) =
           (fst (fold query_entity_step entities ([], False)) @
              [\<lparr>q_label = Some ''ORG'', q_text = Some (take 5 (drop i txt)),
                q_source = None, q_key = Some ''ORG|court''\<rparr>],
            snd (fold query_entity_step entities ([], False))))
     \<and> ((\<forall>i. \<not> standalone_at ''court'' txt i) \<or>
         (\<exists>e \<in> set entities. truthy (e_text e) \<and> normalize_text (e_text e) = ''court'') \<longrightarrow>
          augment_entities_with_keywords txt entities = entities \<and>
          ingest_item_entities \<lparr>i_text = Some txt, i_entities = Some entities\<rparr> = entities \<and>
          query_entities_of txt (Some entities) = fold query_entity_step entities ([], False))
     \<and> (\<forall>i. standalone_at ''court'' txt i \<longrightarrow>
            normalize_text (Some (take 5 (drop i txt))) = ''court''))"
proof (intro impI conjI allI)
  assume occ: "standalone_at ''court'' txt i"
    and least: "\<forall>j < i. \<not> standalone_at ''court'' txt j"
    and none: "\<forall>e \<in> set entities. truthy (e_text e) \<longrightarrow> normalize_text (e_text e) \<noteq> ''court''"
  from augmentation_court [of "txt" i entities] occ least none
  have a: "augment_entities_with_keywords txt entities = entities @ [court_entity txt i]"
    by blast
  show "augment_entities_with_keywords txt entities = entities @ [court_entity txt i]"
    by (rule a)
  show "ingest_item_entities \<lparr>i_text = Some txt, i_entities = Some entities\<rparr> =
          entities @ [court_entity txt i]"
    by (simp add: ingest_item_entities_def or_empty_def a)
  show "query_entities_of txt (Some entities) =
          (fst (fold query_entity_step entities ([], False)) @
             [\<lparr>q_label = Some ''ORG'', q_text = Some (take 5 (drop i txt)),
               q_source = None, q_key = Some ''ORG|court''\<rparr>],
           snd (fold query_entity_step entities ([], False)))"
    by (simp add: query_entities_of_def a court_query_entity [OF occ])
next
  assume n: "(\<forall>i. \<not> standalone_at ''court'' txt i) \<or>
       (\<exists>e \<in> set entities. truthy (e_text e) \<and> normalize_text (e_text e) = ''court'')"
  from augmentation_court [of "txt" 0 entities] n
  have a: "augment_entities_with_keywords txt entities = entities"
    by blast
  show "augment_entities_with_keywords txt entities = entities"
    by (rule a)
  show "ingest_item_entities \<lparr>i_text = Some txt, i_entities = Some entities\<rparr> = entities"
    by (simp add: ingest_item_entities_def or_empty_def a)
  show "query_entities_of txt (Some entities) = fold query_entity_step entities ([], False)"
    by (simp add: query_entities_of_def a)
next
  fix i
  assume "standalone_at ''court'' txt i"
  with augmentation_court [of "txt" i entities]
  show "normalize_text (Some (take 5 (drop i txt))) = ''court''"
    by blast
qed

theorem keyword_augmentation_court_witness:
  "isascii ''a Court'' \<and>
   standalone_at ''court'' ''a Court'' 2 \<and> \<not> standalone_at ''court'' ''a Court'' 0 \<and>
   \<not> standalone_at ''court'' ''a Court'' 1 \<and>
   augment_entities_with_keywords ''a Court'' [] =
     [\<lparr>e_label = Some ''ORG'', e_text = Some ''Court'', e_start = Some 2, e_end = Some 7,
       e_score = Some 1, e_source = None, e_augmented = True\<rparr>] \<and>
   query_entities_of ''a Court'' (Some []) =
     ([\<lparr>q_label = Some ''ORG'', q_text = Some ''Court'', q_source = None,
        q_key = Some ''ORG|court''\<rparr>], False)"
proof -
  have a: "isascii ''a Court''"
    by code_simp
  have h1: "standalone_at ''court'' ''a Court'' 2"
    by code_simp
  have h0: "\<not> standalone_at ''court'' ''a Court'' 0" "\<not> standalone_at ''court'' ''a Court'' 1"
    by code_simp+
  then have h2: "\<forall>j < 2. \<not> standalone_at ''court'' ''a Court'' j"
    by (auto simp: less_Suc_eq eval_nat_numeral)
  from keyword_augmentation_court [of "''a Court''" "[]" 2] a h0 h1 h2 show ?thesis
    by (simp add: court_entity_def)
qed

section \<open>Properties of the characters and of the substitution of a character class\<close>

lemma lower_char_upper: "is_upper c \<Longrightarrow> is_lower (lower_char c)"
  by (auto simp: is_upper_def is_lower_def lower_char_def)

lemma lower_char_id: "\<not> is_upper c \<Longrightarrow> lower_char c = c"
proof -
  assume "\<not> is_upper c"
  then have "map_of (zip ''ABCDEFGHIJKLMNOPQRSTUVWXYZ'' ''abcdefghijklmnopqrstuvwxyz'') c = None"
    unfolding is_upper_def by (subst map_of_zip_is_None) simp_all
  then show ?thesis by (simp only: lower_char_def option.case)
qed

lemma upper_char_lower: "is_lower c \<Longrightarrow> is_upper (upper_char c)"
  by (auto simp: is_upper_def is_lower_def upper_char_def)

lemma upper_char_id: "\<not> is_lower c \<Longrightarrow> upper_char c = c"
proof -
  assume "\<not> is_lower c"
  then have "map_of (zip ''abcdefghijklmnopqrstuvwxyz'' ''ABCDEFGHIJKLMNOPQRSTUVWXYZ'') c = None"
    unfolding is_lower_def by (subst map_of_zip_is_None) simp_all
  then show ?thesis by (simp only: upper_char_def option.case)
qed

lemma is_lower_facts:
  "is_lower d \<Longrightarrow> \<not> is_upper d \<and> \<not> is_space d \<and> d \<noteq> CHR ''-''"
  by (auto simp: is_lower_def is_upper_def is_space_def)

lemma is_upper_not_lower: "is_upper d \<Longrightarrow> \<not> is_lower d"
  using is_lower_facts by blast

lemma upper_char_not_lower: "\<not> is_lower (upper_char c)"
proof (cases "is_lower c")
  case True
  then show ?thesis using upper_char_lower is_upper_not_lower by blast
next
  case False
  then show ?thesis by (simp add: upper_char_id)
qed

lemma lower_char_not_upper: "\<not> is_upper (lower_char c)"
proof (cases "is_upper c")
  case True
  then show ?thesis using lower_char_upper is_lower_facts by blast
next
  case False
  then show ?thesis by (simp add: lower_char_id)
qed

lemma reps_star_step:
  assumes nil: "\<And>bef cs. f (bef, [], cs) = []"
    and cons: "\<And>bef c r cs. f (bef, c # r, cs) = (if P c then [(c # bef, r, cs)] else [])"
  shows "length rest \<le> fuel \<Longrightarrow>
     \<exists>more. reps fuel f True 0 (bef, rest, cs) =
       (rev (takeWhile P rest) @ bef, dropWhile P rest, cs) # more"
proof (induction fuel arbitrary: bef rest)
  case 0
  then show ?case by simp
next
  case (Suc fuel)
  show ?case
  proof (cases rest)
    case Nil
    then show ?thesis by (simp add: nil)
  next
    case (Cons c r)
    show ?thesis
    proof (cases "P c")
      case True
      from Suc.prems Cons have "length r \<le> fuel" by simp
      from Suc.IH [OF this, of "c # bef"] obtain more where
        "reps fuel f True 0 (c # bef, r, cs) =
           (rev (takeWhile P r) @ c # bef, dropWhile P r, cs) # more"
        by blast
      with Cons True show ?thesis by (simp add: cons)
    next
      case False
      with Cons show ?thesis by (simp add: cons)
    qed
  qed
qed

lemma match_here_plus_cls:
  "match_here (Plus (Cls P)) bef rest =
     (case rest of
        [] \<Rightarrow> None
      | c # r \<Rightarrow> if P c then Some (rev (takeWhile P rest) @ bef, dropWhile P rest, []) else None)"
proof (cases rest)
  case Nil
  then show ?thesis by (simp add: match_here_def Plus_def)
next
  case (Cons c r)
  show ?thesis
  proof (cases "P c")
    case True
    have "\<exists>more. reps (length r) (rmatch (Cls P)) True 0 (c # bef, r, []) =
            (rev (takeWhile P r) @ c # bef, dropWhile P r, []) # more"
      by (rule reps_star_step) simp_all
    then obtain more where
      m: "reps (length r) (rmatch (Cls P)) True 0 (c # bef, r, []) =
           (rev (takeWhile P r) @ c # bef, dropWhile P r, []) # more"
      by blast
    have "rmatch (Plus (Cls P)) (bef, rest, []) =
            reps (length r) (rmatch (Cls P)) True 0 (c # bef, r, [])"
      using Cons True by (simp add: Plus_def)
    with m Cons True show ?thesis by (simp add: match_here_def)
  next
    case False
    with Cons show ?thesis by (simp add: match_here_def Plus_def)
  qed
qed

lemma re_sub_plus_cls_nil:
  "re_sub_from (Plus (Cls P)) (\<lambda>_ _. r) bef [] = []"
  by (subst re_sub_from.simps) (simp add: match_here_plus_cls)

lemma re_sub_plus_cls_skip:
  "\<not> P c \<Longrightarrow>
     re_sub_from (Plus (Cls P)) (\<lambda>_ _. r) bef (c # cs) =
       c # re_sub_from (Plus (Cls P)) (\<lambda>_ _. r) (c # bef) cs"
  by (subst re_sub_from.simps) (simp add: match_here_plus_cls)

lemma re_sub_plus_cls_hit:
  assumes "P c"
  shows "re_sub_from (Plus (Cls P)) (\<lambda>_ _. r) bef (c # cs) =
           r @ re_sub_from (Plus (Cls P)) (\<lambda>_ _. r)
                 (rev (takeWhile P cs) @ c # bef) (dropWhile P cs)"
proof -
  have l: "length (dropWhile P cs) < Suc (length cs)"
    using length_dropWhile_le [of P cs] by simp
  show ?thesis
    using assms l by (subst re_sub_from.simps) (simp add: match_here_plus_cls)
qed

lemma filter_dropWhile_not:
  "filter (\<lambda>c. Q c \<and> \<not> P c) (dropWhile P xs) = filter (\<lambda>c. Q c \<and> \<not> P c) xs"
  by (induction xs) simp_all

lemma filter_re_sub_plus_cls:
  assumes r: "filter Q r = []"
  shows "filter Q (re_sub_from (Plus (Cls P)) (\<lambda>_ _. r) bef rest) =
           filter (\<lambda>c. Q c \<and> \<not> P c) rest"
proof (induction "length rest" arbitrary: bef rest rule: less_induct)
  case less
  show ?case
  proof (cases rest)
    case Nil
    then show ?thesis by (simp only: re_sub_plus_cls_nil filter.simps)
  next
    case (Cons c cs)
    show ?thesis
    proof (cases "P c")
      case False
      have "length cs < length rest" using Cons by simp
      then have "filter Q (re_sub_from (Plus (Cls P)) (\<lambda>_ _. r) (c # bef) cs) =
            filter (\<lambda>c. Q c \<and> \<not> P c) cs"
        by (rule less.hyps)
      moreover have "re_sub_from (Plus (Cls P)) (\<lambda>_ _. r) bef (c # cs) =
            c # re_sub_from (Plus (Cls P)) (\<lambda>_ _. r) (c # bef) cs"
        using False by (rule re_sub_plus_cls_skip)
      ultimately show ?thesis
        unfolding Cons using False by simp
    next
      case True
      have "length (dropWhile P cs) < length rest"
        using Cons length_dropWhile_le [of P cs] by simp
      then have "filter Q (re_sub_from (Plus (Cls P)) (\<lambda>_ _. r)
                   (rev (takeWhile P cs) @ c # bef) (dropWhile P cs)) =
                 filter (\<lambda>c. Q c \<and> \<not> P c) (dropWhile P cs)"
        by (rule less.hyps)
      moreover have "re_sub_from (Plus (Cls P)) (\<lambda>_ _. r) bef (c # cs) =
            r @ re_sub_from (Plus (Cls P)) (\<lambda>_ _. r)
                  (rev (takeWhile P cs) @ c # bef) (dropWhile P cs)"
        using True by (rule re_sub_plus_cls_hit)
      ultimately have "filter Q (re_sub_from (Plus (Cls P)) (\<lambda>_ _. r) bef (c # cs)) =
                 filter (\<lambda>c. Q c \<and> \<not> P c) cs"
        by (simp add: r filter_dropWhile_not)
      then show ?thesis
        unfolding Cons using True by simp
    qed
  qed
qed


lemma is_upper_not_space: "is_upper c \<Longrightarrow> \<not> is_space c \<and> c \<noteq> CHR ''-''"
  by (auto simp: is_upper_def is_space_def)

lemma is_space_lower_char [simp]: "is_space (lower_char c) \<longleftrightarrow> is_space c"
proof (cases "is_upper c")
  case True
  then show ?thesis
    using lower_char_upper [of c] is_lower_facts [of "lower_char c"] is_upper_not_space [of c]
    by blast
next
  case False
  then show ?thesis by (simp add: lower_char_id)
qed

lemma lower_char_dash [simp]: "lower_char c = CHR ''-'' \<longleftrightarrow> c = CHR ''-''"
proof (cases "is_upper c")
  case True
  then show ?thesis
    using lower_char_upper [of c] is_lower_facts [of "lower_char c"] is_upper_not_space [of c]
    by blast
next
  case False
  then show ?thesis by (simp add: lower_char_id)
qed

lemma lower_char_idem [simp]: "lower_char (lower_char c) = lower_char c"
  using lower_char_not_upper [of c] by (rule lower_char_id)


lemma last_dropWhile_ne: "dropWhile P xs \<noteq> [] \<Longrightarrow> last (dropWhile P xs) = last xs"
  by (induction xs) (auto split: if_splits)

lemma strip_chars_last: "strip_chars P s \<noteq> [] \<Longrightarrow> \<not> P (last (strip_chars P s))"
proof -
  assume n: "strip_chars P s \<noteq> []"
  let ?d = "dropWhile P (rev (dropWhile P s))"
  from n have d: "?d \<noteq> []"
    by (simp add: strip_chars_def rstrip_chars_def lstrip_chars_def)
  then have "\<not> P (hd ?d)"
    by (rule hd_dropWhile)
  moreover have "last (strip_chars P s) = hd ?d"
    using d by (simp add: strip_chars_def rstrip_chars_def lstrip_chars_def last_rev)
  ultimately show ?thesis by simp
qed

lemma strip_chars_hd: "strip_chars P s \<noteq> [] \<Longrightarrow> \<not> P (hd (strip_chars P s))"
proof -
  assume n: "strip_chars P s \<noteq> []"
  let ?e = "dropWhile P s"
  let ?d = "dropWhile P (rev ?e)"
  from n have d: "?d \<noteq> []"
    by (simp add: strip_chars_def rstrip_chars_def lstrip_chars_def)
  have e: "?e \<noteq> []"
  proof
    assume a: "?e = []"
    have "?d = []" unfolding a by simp
    with d show False by simp
  qed
  have "hd (strip_chars P s) = last ?d"
    using d by (simp add: strip_chars_def rstrip_chars_def lstrip_chars_def hd_rev)
  also have "\<dots> = last (rev ?e)"
    using d by (rule last_dropWhile_ne)
  also have "\<dots> = hd ?e"
    using e by (simp add: last_rev)
  finally show ?thesis
    using hd_dropWhile [OF e] by simp
qed

lemma set_strip_chars: "set (strip_chars P s) \<subseteq> set s"
proof -
  have "set (strip_chars P s) \<subseteq> set (dropWhile P s)"
    using set_dropWhileD [of _ P "rev (dropWhile P s)"]
    by (auto simp: strip_chars_def rstrip_chars_def lstrip_chars_def)
  then show ?thesis
    using set_dropWhileD [of _ P s] by blast
qed

lemma edge_punct_not_upper: "is_upper c \<Longrightarrow> \<not> edge_punct c"
  by (auto simp: is_upper_def edge_punct_def)

lemma edge_punct_not_lower: "is_lower c \<Longrightarrow> \<not> edge_punct c"
  by (auto simp: is_lower_def edge_punct_def)

lemma edge_punct_lower_char: "edge_punct (lower_char c) \<longleftrightarrow> edge_punct c"
proof (cases "is_upper c")
  case True
  then show ?thesis
    using lower_char_upper [of c] edge_punct_not_lower [of "lower_char c"]
      edge_punct_not_upper [of c] by blast
next
  case False
  then show ?thesis by (simp add: lower_char_id)
qed

lemma is_space_not_lower: "is_space c \<Longrightarrow> \<not> is_lower c"
  using is_lower_facts by blast

lemma is_space_upper_char: "is_space (upper_char c) \<longleftrightarrow> is_space c"
proof (cases "is_lower c")
  case True
  then show ?thesis
    using upper_char_lower [of c] is_upper_not_space [of "upper_char c"]
      is_space_not_lower [of c] by blast
next
  case False
  then show ?thesis by (simp add: upper_char_id)
qed

lemma lower_char_space: "is_space c \<Longrightarrow> lower_char c = c"
  using is_upper_not_space [of c] lower_char_id [of c] by blast

lemma collapsed_spaces:
  "c \<in> set (re_sub WS_PAT (\<lambda>_ _. '' '') s) \<Longrightarrow> is_space c \<Longrightarrow> c = CHR '' ''"
proof -
  let ?Q = "\<lambda>c. is_space c \<and> c \<noteq> CHR '' ''"
  assume c: "c \<in> set (re_sub WS_PAT (\<lambda>_ _. '' '') s)" and s: "is_space c"
  have "filter ?Q '' '' = []"
    by simp
  then have "filter ?Q (re_sub_from (Plus (Cls is_space)) (\<lambda>_ _. '' '') [] s) =
             filter (\<lambda>c. ?Q c \<and> \<not> is_space c) s"
    by (rule filter_re_sub_plus_cls)
  then have "filter ?Q (re_sub WS_PAT (\<lambda>_ _. '' '') s) = []"
    by (simp add: re_sub_def WS_PAT_def)
  then have "\<not> ?Q c"
    using c by (simp add: filter_empty_conv)
  with s show ?thesis by simp
qed

lemma normalize_text_upper: "c \<in> set (normalize_text t) \<Longrightarrow> \<not> is_upper c"
  by (auto simp: normalize_text_def Let_def lower_def lower_char_not_upper)

lemma normalize_text_space:
  assumes c: "c \<in> set (normalize_text t)" and s: "is_space c"
  shows "c = CHR '' ''"
proof -
  let ?w = "re_sub WS_PAT (\<lambda>_ _. '' '')
              (re_sub KEY_INITIALS_PAT (\<lambda>m _. filter is_alpha m)
                 (re_sub VS_PAT (\<lambda>_ _. '' '') (or_empty t)))"
  from c obtain d where d: "d \<in> set (strip_chars edge_punct (strip ?w))" and cd: "c = lower_char d"
    by (auto simp: normalize_text_def Let_def lower_def)
  from s cd have sd: "is_space d" by simp
  then have "lower_char d = d" by (rule lower_char_space)
  with cd have "c = d" by simp
  moreover from d have "d \<in> set ?w"
    using set_strip_chars [of edge_punct "strip ?w"] set_strip_chars [of is_space ?w]
    by (auto simp: strip_def)
  ultimately show ?thesis
    using collapsed_spaces [of c] s by blast
qed

lemma normalize_text_ends:
  assumes n: "normalize_text t \<noteq> []"
  shows "\<not> edge_punct (hd (normalize_text t)) \<and> \<not> edge_punct (last (normalize_text t))"
proof -
  let ?u = "strip (re_sub WS_PAT (\<lambda>_ _. '' '')
              (re_sub KEY_INITIALS_PAT (\<lambda>m _. filter is_alpha m)
                 (re_sub VS_PAT (\<lambda>_ _. '' '') (or_empty t))))"
  have e: "normalize_text t = map lower_char (strip_chars edge_punct ?u)"
    by (simp add: normalize_text_def Let_def lower_def)
  with n have ne: "strip_chars edge_punct ?u \<noteq> []" by simp
  from ne have "hd (normalize_text t) = lower_char (hd (strip_chars edge_punct ?u))"
    "last (normalize_text t) = lower_char (last (strip_chars edge_punct ?u))"
    by (simp_all add: e hd_map last_map)
  then show ?thesis
    using strip_chars_hd [OF ne] strip_chars_last [OF ne] by (simp add: edge_punct_lower_char)
qed

lemma normalize_label_ends:
  assumes n: "normalize_label l \<noteq> []"
  shows "\<not> is_space (hd (normalize_label l)) \<and> \<not> is_space (last (normalize_label l))"
proof -
  have e: "normalize_label l = map upper_char (strip_chars is_space (or_empty l))"
    by (simp add: normalize_label_def upper_def strip_def)
  with n have ne: "strip_chars is_space (or_empty l) \<noteq> []" by simp
  from ne have "hd (normalize_label l) = upper_char (hd (strip_chars is_space (or_empty l)))"
    "last (normalize_label l) = upper_char (last (strip_chars is_space (or_empty l)))"
    by (simp_all add: e hd_map last_map)
  then show ?thesis
    using strip_chars_hd [OF ne] strip_chars_last [OF ne] by (simp add: is_space_upper_char)
qed

lemma normalize_label_lower: "c \<in> set (normalize_label l) \<Longrightarrow> \<not> is_lower c"
  by (auto simp: normalize_label_def upper_def upper_char_not_lower)

section \<open>Properties of the entity key\<close>

text \<open>
  C2, the claim as stated, at the label PERSON and the text "Dr Rao": the key keeps the
  honorific that the matching-time normalisation removes.
\<close>

theorem entity_key_not_legal_normalised_counterexample:
  "make_entity_key (Some ''PERSON'') (Some ''Dr Rao'') = ''PERSON|drrao'' \<and>
   make_key_spec (Some ''PERSON'') (Some ''Dr Rao'') = ''PERSON|rao''"
  by code_simp

text \<open>
  C2, amended. For an ASCII label and an ASCII text, the key is the label, trimmed and
  upper-cased (empty when there is no label), a bar, and the text passed through the key
  builder's own normalisation \<^verbatim>\<open>_normalize_text\<close>, not through the matching-time
  normalisation. The label part has no lower-case letter and no white space at either
  end. The text part has no upper-case letter, its only white space is the space
  character, and it neither begins nor ends with a space or with one of the punctuation
  marks that \<^verbatim>\<open>_normalize_text\<close> trims.
\<close>

theorem entity_key_serialisation:
  "isascii (or_empty label) \<longrightarrow> isascii (or_empty text) \<longrightarrow>
     make_entity_key label text = upper (strip (or_empty label)) @ ''|'' @ normalize_text text
   \<and> (label = None \<longrightarrow> make_entity_key label text = ''|'' @ normalize_text text)
   \<and> (\<forall>c \<in> set (upper (strip (or_empty label))). \<not> is_lower c)
   \<and> (upper (strip (or_empty label)) \<noteq> [] \<longrightarrow>
        \<not> is_space (hd (upper (strip (or_empty label)))) \<and>
        \<not> is_space (last (upper (strip (or_empty label)))))
   \<and> (\<forall>c \<in> set (normalize_text text). \<not> is_upper c \<and> (is_space c \<longrightarrow> c = CHR '' ''))
   \<and> (normalize_text text \<noteq> [] \<longrightarrow>
        \<not> edge_punct (hd (normalize_text text)) \<and> \<not> edge_punct (last (normalize_text text)))"
proof -
  have l: "normalize_label label = upper (strip (or_empty label))"
    by (simp add: normalize_label_def)
  have n: "label = None \<longrightarrow> normalize_label label = []"
    by (simp add: normalize_label_def or_empty_def upper_def strip_def strip_chars_def
        rstrip_chars_def lstrip_chars_def)
  show ?thesis
    using normalize_label_lower [of _ label] normalize_label_ends [of label]
      normalize_text_upper [of _ "text"] normalize_text_space [of _ "text"]
      normalize_text_ends [of "text"] n
    by (simp add: make_entity_key_def l [symmetric])
qed

theorem entity_key_serialisation_witness:
  "isascii (or_empty (Some '' org '')) \<and> isascii (or_empty (Some ''Kala Devi, '')) \<and>
   make_entity_key (Some '' org '') (Some ''Kala Devi, '') = ''ORG|kaladevi'' \<and>
   upper (strip (or_empty (Some '' org ''))) = ''ORG'' \<and>
   normalize_text (Some ''Kala Devi, '') = ''kaladevi''"
proof -
  have a: "isascii (or_empty (Some '' org ''))" "isascii (or_empty (Some ''Kala Devi, ''))"
    by code_simp+
  have "upper (strip (or_empty (Some '' org ''))) = ''ORG''"
    "normalize_text (Some ''Kala Devi, '') = ''kaladevi''"
    by code_simp+
  with entity_key_serialisation [of "Some '' org ''" "Some ''Kala Devi, ''"] a show ?thesis
    by simp
qed

section \<open>The last step of the normaliser\<close>








end
